theory Spec2Isabelle
  imports Main "HOL-Library.Word"
begin

unbundle bit_operations_syntax

section \<open>The eviction tracker: \<open>src/buffer/lru_k_replacer.cpp\<close>\<close>

subsection \<open>Data model\<close>

text \<open>
  \<open>frame_id_t\<close> is a 32-bit signed integer; \<open>static_cast<size_t>(frame_id)\<close> reads it
  as a 64-bit unsigned value, so a negative identifier becomes a huge one.
\<close>

type_synonym frame_id_t = "32 word"

definition size_t_of :: "frame_id_t \<Rightarrow> nat" where
  "size_t_of frame_id = nat (sint frame_id mod 2 ^ 64)"

text \<open>
  The class declaration (the header) is not among the sources. A \<open>FrameEntity\<close> is built
  as \<open>FrameEntity{0, true, hist_list_.begin()}\<close> and read through its members
  \<open>hit_count_\<close>, \<open>evictable_\<close> and \<open>it_\<close>. Member names are written without the
  trailing underscore here (Isabelle does not accept such names), and \<open>k_\<close> is \<open>lru_k\<close>.
  The iterator \<open>it_\<close> refers to the list node that holds the frame's identifier; it is
  modelled by the list that owns this node. Erasing through an iterator from a list that
  does not own the node is undefined behaviour in C++: the operations return \<open>None\<close>
  there. The hit counter is taken as an unbounded natural number; \<open>replacer_size_\<close> and
  \<open>k_\<close> are \<open>size_t\<close> values that are only compared; \<open>curr_size_\<close> is a \<open>size_t\<close> that
  is counted up and down, and wraps.
\<close>

datatype list_iterator = Hist_node | Cache_node

record FrameEntity =
  hit_count :: nat
  evictable :: bool
  it :: list_iterator

record LRUKReplacer =
  replacer_size :: nat
  lru_k :: nat
  curr_size :: "64 word"
  hist_list :: "frame_id_t list"
  cache_list :: "frame_id_t list"
  frame_entities :: "frame_id_t \<rightharpoonup> FrameEntity"

text \<open>The constructor: \<open>LRUKReplacer(num_frames, k)\<close>, every other member empty.\<close>

definition LRUKReplacer_new :: "nat \<Rightarrow> nat \<Rightarrow> LRUKReplacer" where
  "LRUKReplacer_new num_frames k =
     \<lparr>replacer_size = num_frames, lru_k = k, curr_size = 0,
      hist_list = [], cache_list = [], frame_entities = Map.empty\<rparr>"

text \<open>
  \<open>list.erase(entity.it_)\<close> for the entity of frame \<open>id\<close>: defined when the iterator's
  node belongs to the list \<open>owner\<close> that \<open>erase\<close> is called on; it unlinks the node
  holding \<open>id\<close>.
\<close>

definition list_erase ::
  "list_iterator \<Rightarrow> frame_id_t list \<Rightarrow> list_iterator \<Rightarrow> frame_id_t \<Rightarrow> frame_id_t list option" where
  "list_erase owner xs pos fid =
     (if pos = owner \<and> fid \<in> set xs then Some (remove1 fid xs) else None)"

subsection \<open>Evict\<close>

text \<open>
  One reverse scan (\<open>rbegin\<close> to \<open>rend\<close>) of a list: the loop stops at an identifier
  with no entity (the early \<open>return false\<close>), or at the first evictable one, or runs off
  the list.
\<close>

datatype scan_result = Not_tracked frame_id_t | Victim frame_id_t FrameEntity | No_victim

fun scan :: "(frame_id_t \<rightharpoonup> FrameEntity) \<Rightarrow> frame_id_t list \<Rightarrow> scan_result" where
  "scan ents [] = No_victim"
| "scan ents (fid # rest) =
     (case ents fid of
        None \<Rightarrow> Not_tracked fid
      | Some e \<Rightarrow> if evictable e then Victim fid e else scan ents rest)"

text \<open>
  \<open>Evict(frame_id_t *frame_id)\<close>: the argument \<open>out\<close> is the value of the caller's
  variable before the call; the result is the returned flag, the value of the caller's
  variable after the call, and the new state. The failing paths assign \<open>nullptr\<close> to the
  parameter itself, which is a local copy of the pointer.
\<close>

definition Evict :: "LRUKReplacer \<Rightarrow> frame_id_t \<Rightarrow> (bool \<times> frame_id_t \<times> LRUKReplacer) option" where
  "Evict s out =
     (if curr_size s \<le> 0 then Some (False, out, s)
      else
        (case scan (frame_entities s) (rev (hist_list s)) of
           Not_tracked fid \<Rightarrow> Some (False, out, s)
         | Victim fid e \<Rightarrow>
             (case list_erase Hist_node (hist_list s) (it e) fid of
                None \<Rightarrow> None
              | Some hl \<Rightarrow>
                  Some (True, fid,
                    s\<lparr>hist_list := hl,
                      frame_entities := (frame_entities s)(fid := None),
                      curr_size := curr_size s - 1\<rparr>))
         | No_victim \<Rightarrow>
             (case scan (frame_entities s) (rev (cache_list s)) of
                Not_tracked fid \<Rightarrow> Some (False, out, s)
              | Victim fid e \<Rightarrow>
                  (case list_erase Cache_node (cache_list s) (it e) fid of
                     None \<Rightarrow> None
                   | Some cl \<Rightarrow>
                       Some (True, fid,
                         s\<lparr>cache_list := cl,
                           frame_entities := (frame_entities s)(fid := None),
                           curr_size := curr_size s - 1\<rparr>))
              | No_victim \<Rightarrow> Some (False, out, s))))"

subsection \<open>RecordAccess, SetEvictable, Remove, Size\<close>

definition out_of_range :: "LRUKReplacer \<Rightarrow> frame_id_t \<Rightarrow> bool" where
  "out_of_range s frame_id \<longleftrightarrow> size_t_of frame_id > replacer_size s"

text \<open>
  \<open>RecordAccess\<close>: \<open>add_new\<close> is the state after the block that registers an unknown
  frame; the counter is then incremented and the node moved as the counter demands.
\<close>

definition add_new :: "LRUKReplacer \<Rightarrow> frame_id_t \<Rightarrow> LRUKReplacer" where
  "add_new s frame_id =
     s\<lparr>hist_list := frame_id # hist_list s,
       frame_entities := (frame_entities s)
         (frame_id \<mapsto> \<lparr>hit_count = 0, evictable = True, it = Hist_node\<rparr>),
       curr_size := curr_size s + 1\<rparr>"

definition RecordAccess :: "LRUKReplacer \<Rightarrow> frame_id_t \<Rightarrow> LRUKReplacer option" where
  "RecordAccess s frame_id =
     (if out_of_range s frame_id then Some s
      else
        let s1 = (if frame_entities s frame_id = None then add_new s frame_id else s) in
        (case frame_entities s1 frame_id of
           None \<Rightarrow> None
         | Some e0 \<Rightarrow>
             let e = e0\<lparr>hit_count := hit_count e0 + 1\<rparr> in
             if hit_count e = lru_k s1 then
               (case list_erase Hist_node (hist_list s1) (it e) frame_id of
                  None \<Rightarrow> None
                | Some hl \<Rightarrow>
                    Some (s1\<lparr>hist_list := hl,
                             cache_list := frame_id # cache_list s1,
                             frame_entities :=
                               (frame_entities s1)(frame_id \<mapsto> e\<lparr>it := Cache_node\<rparr>)\<rparr>))
             else if hit_count e > lru_k s1 then
               (case list_erase Cache_node (cache_list s1) (it e) frame_id of
                  None \<Rightarrow> None
                | Some cl \<Rightarrow>
                    Some (s1\<lparr>cache_list := frame_id # cl,
                             frame_entities :=
                               (frame_entities s1)(frame_id \<mapsto> e\<lparr>it := Cache_node\<rparr>)\<rparr>))
             else Some (s1\<lparr>frame_entities := (frame_entities s1)(frame_id \<mapsto> e)\<rparr>)))"

definition SetEvictable :: "LRUKReplacer \<Rightarrow> frame_id_t \<Rightarrow> bool \<Rightarrow> LRUKReplacer" where
  "SetEvictable s frame_id set_evictable =
     (if out_of_range s frame_id then s
      else
        (case frame_entities s frame_id of
           None \<Rightarrow> s
         | Some e \<Rightarrow>
             let c = (if evictable e \<and> \<not> set_evictable then curr_size s - 1
                      else if \<not> evictable e \<and> set_evictable then curr_size s + 1
                      else curr_size s)
             in s\<lparr>curr_size := c,
                  frame_entities :=
                    (frame_entities s)(frame_id \<mapsto> e\<lparr>evictable := set_evictable\<rparr>)\<rparr>))"

definition Remove :: "LRUKReplacer \<Rightarrow> frame_id_t \<Rightarrow> LRUKReplacer option" where
  "Remove s frame_id =
     (if out_of_range s frame_id then Some s
      else
        (case frame_entities s frame_id of
           None \<Rightarrow> Some s
         | Some e \<Rightarrow>
             if \<not> evictable e then Some s
             else
               (case (if hit_count e < lru_k s
                      then map_option (\<lambda>hl. s\<lparr>hist_list := hl\<rparr>)
                             (list_erase Hist_node (hist_list s) (it e) frame_id)
                      else map_option (\<lambda>cl. s\<lparr>cache_list := cl\<rparr>)
                             (list_erase Cache_node (cache_list s) (it e) frame_id)) of
                  None \<Rightarrow> None
                | Some s1 \<Rightarrow>
                    Some (s1\<lparr>curr_size := curr_size s1 - 1,
                             frame_entities := (frame_entities s1)(frame_id := None)\<rparr>))))"

definition Size :: "LRUKReplacer \<Rightarrow> nat" where
  "Size s = unat (curr_size s)"

text \<open>
  The states a tracker can be in: the constructed one and every state an operation
  returns from a reachable one.
\<close>

inductive reachable :: "LRUKReplacer \<Rightarrow> bool" where
  reach_new: "reachable (LRUKReplacer_new num_frames k)"
| reach_RecordAccess:
    "reachable s \<Longrightarrow> RecordAccess s frame_id = Some s' \<Longrightarrow> reachable s'"
| reach_SetEvictable:
    "reachable s \<Longrightarrow> reachable (SetEvictable s frame_id set_evictable)"
| reach_Evict:
    "reachable s \<Longrightarrow> Evict s out = Some (r, out', s') \<Longrightarrow> reachable s'"
| reach_Remove:
    "reachable s \<Longrightarrow> Remove s frame_id = Some s' \<Longrightarrow> reachable s'"

subsection \<open>Notions used to state the tracker's properties\<close>

text \<open>
  A frame is evictable when it has an entity whose flag is set. \<open>lru_victim ents xs\<close> is
  the evictable identifier nearest to the tail of the sequence \<open>xs\<close>: the one a scan from
  the tail towards the head meets first.
\<close>

definition is_evictable :: "(frame_id_t \<rightharpoonup> FrameEntity) \<Rightarrow> frame_id_t \<Rightarrow> bool" where
  "is_evictable ents f = (case ents f of None \<Rightarrow> False | Some e \<Rightarrow> evictable e)"

definition lru_inv :: "LRUKReplacer \<Rightarrow> bool" where
  "lru_inv s \<longleftrightarrow>
     distinct (hist_list s) \<and> distinct (cache_list s) \<and>
     set (hist_list s) \<inter> set (cache_list s) = {} \<and>
     dom (frame_entities s) = set (hist_list s) \<union> set (cache_list s) \<and>
     (\<forall>f e. frame_entities s f = Some e \<longrightarrow>
        (if hit_count e < lru_k s then f \<in> set (hist_list s) \<and> it e = Hist_node
         else f \<in> set (cache_list s) \<and> it e = Cache_node)) \<and>
     unat (curr_size s) = card {f. is_evictable (frame_entities s) f}"

definition lru_victim :: "(frame_id_t \<rightharpoonup> FrameEntity) \<Rightarrow> frame_id_t list \<Rightarrow> frame_id_t option" where
  "lru_victim ents xs =
     (let ys = filter (is_evictable ents) xs in if ys = [] then None else Some (last ys))"

definition tracked_evictable :: "LRUKReplacer \<Rightarrow> frame_id_t set" where
  "tracked_evictable s = {f. \<exists>e. frame_entities s f = Some e \<and> evictable e}"

text \<open>
  The scenario of the specification: capacity 7, \<open>k = 2\<close>, frames 1, 2 and 3 accessed
  once each and frame 1 a second time.
\<close>

definition scenario :: LRUKReplacer where
  "scenario =
     \<lparr>replacer_size = 7, lru_k = 2, curr_size = 3,
      hist_list = [3, 2], cache_list = [1],
      frame_entities =
        [1 \<mapsto> \<lparr>hit_count = 2, evictable = True, it = Cache_node\<rparr>,
         2 \<mapsto> \<lparr>hit_count = 1, evictable = True, it = Hist_node\<rparr>,
         3 \<mapsto> \<lparr>hit_count = 1, evictable = True, it = Hist_node\<rparr>]\<rparr>"

text \<open>
  Accessing a list of frames one after the other; the time of a frame's last access in
  such a list (positions count from 1, and 0 means never); and the state after the accesses
  1, 2, 1 with capacity 7 and \<open>k = 3\<close>.
\<close>

fun RecordAccess_all :: "LRUKReplacer \<Rightarrow> frame_id_t list \<Rightarrow> LRUKReplacer option" where
  "RecordAccess_all s [] = Some s"
| "RecordAccess_all s (frame_id # rest) =
     (case RecordAccess s frame_id of None \<Rightarrow> None | Some s' \<Rightarrow> RecordAccess_all s' rest)"

definition last_access :: "frame_id_t list \<Rightarrow> frame_id_t \<Rightarrow> nat" where
  "last_access trace frame_id = length (dropWhile (\<lambda>x. x \<noteq> frame_id) (rev trace))"

definition revisited :: LRUKReplacer where
  "revisited =
     \<lparr>replacer_size = 7, lru_k = 3, curr_size = 2,
      hist_list = [2, 1], cache_list = [],
      frame_entities =
        [1 \<mapsto> \<lparr>hit_count = 2, evictable = True, it = Hist_node\<rparr>,
         2 \<mapsto> \<lparr>hit_count = 1, evictable = True, it = Hist_node\<rparr>]\<rparr>"

text \<open>
  The accesses behind a state. \<open>accessed tr s\<close>: the state \<open>s\<close> is reached by a run of
  operations in which \<open>tr\<close> lists, in order, the identifiers of the calls of
  \<open>RecordAccess\<close> that passed the bound check (a rejected call records nothing). The
  sequence \<open>xs\<close> is in the order of recency, \<open>by_recency tr xs\<close>, when every frame in it
  was last accessed after all the frames behind it, so that the tail is the least recently
  accessed one. \<open>recency_inv\<close> is what the runs maintain: the cached sequence is always in
  the order of recency, the history sequence is for \<open>k \<le> 2\<close>, and every entity has been
  counted at least once.
\<close>

inductive accessed :: "frame_id_t list \<Rightarrow> LRUKReplacer \<Rightarrow> bool" where
  accessed_new: "accessed [] (LRUKReplacer_new num_frames k)"
| accessed_RecordAccess:
    "accessed tr s \<Longrightarrow> \<not> out_of_range s frame_id \<Longrightarrow> RecordAccess s frame_id = Some s' \<Longrightarrow>
     accessed (tr @ [frame_id]) s'"
| accessed_SetEvictable:
    "accessed tr s \<Longrightarrow> accessed tr (SetEvictable s frame_id set_evictable)"
| accessed_Evict:
    "accessed tr s \<Longrightarrow> Evict s out = Some (r, out', s') \<Longrightarrow> accessed tr s'"
| accessed_Remove:
    "accessed tr s \<Longrightarrow> Remove s frame_id = Some s' \<Longrightarrow> accessed tr s'"

definition by_recency :: "frame_id_t list \<Rightarrow> frame_id_t list \<Rightarrow> bool" where
  "by_recency tr xs \<longleftrightarrow> sorted_wrt (\<lambda>a b. last_access tr b < last_access tr a) xs"

definition recency_inv :: "frame_id_t list \<Rightarrow> LRUKReplacer \<Rightarrow> bool" where
  "recency_inv tr s \<longleftrightarrow>
     by_recency tr (cache_list s) \<and>
     (lru_k s \<le> 2 \<longrightarrow> by_recency tr (hist_list s)) \<and>
     (\<forall>f e. frame_entities s f = Some e \<longrightarrow> 1 \<le> hit_count e)"

text \<open>
  The state after \<open>RecordAccess(7)\<close> on a new tracker with capacity 7 and \<open>k = 2\<close>.
\<close>

definition boundary :: LRUKReplacer where
  "boundary =
     \<lparr>replacer_size = 7, lru_k = 2, curr_size = 1,
      hist_list = [7], cache_list = [],
      frame_entities = [7 \<mapsto> \<lparr>hit_count = 1, evictable = True, it = Hist_node\<rparr>]\<rparr>"

section \<open>The extendible hash table: \<open>src/container/hash/extendible_hash_table.cpp\<close>\<close>

subsection \<open>Data model\<close>

text \<open>
  The class declaration (the header) is not among the sources. A bucket is built as
  \<open>Bucket(array_size, depth)\<close> with the members \<open>size_\<close>, \<open>depth_\<close> and \<open>list_\<close>, written
  \<open>b_size\<close>, \<open>b_depth\<close> and \<open>b_list\<close> here; \<open>GetDepth\<close> and \<open>GetItems\<close> read the last two.
  The directory \<open>dir_\<close> holds shared pointers, and several slots may point to one
  bucket, which \<open>Bucket::Insert\<close> and \<open>Bucket::Remove\<close> change in place. The buckets
  therefore live in a store \<open>heap\<close>: a pointer is a position in it, and
  \<open>std::make_shared\<close> appends a bucket. A bucket that no slot points to any more stays in
  the store, out of reach. The depths and \<open>num_buckets_\<close> are \<open>int\<close> in the code; they only
  grow from 0, and the shifts below stop them long before \<open>int\<close> overflows.
\<close>

record ('k, 'v) Bucket =
  b_size :: nat
  b_depth :: nat
  b_list :: "('k \<times> 'v) list"

record ('k, 'v) ExtendibleHashTable =
  global_depth :: nat
  bucket_size :: nat
  num_buckets :: nat
  dir :: "nat list"
  heap :: "('k, 'v) Bucket list"

definition Bucket_new :: "nat \<Rightarrow> nat \<Rightarrow> ('k, 'v) Bucket" where
  "Bucket_new array_size depth = \<lparr>b_size = array_size, b_depth = depth, b_list = []\<rparr>"

text \<open>
  The constructor: global depth 0, one bucket, one slot pointing to it.
\<close>

definition ExtendibleHashTable_new :: "nat \<Rightarrow> ('k, 'v) ExtendibleHashTable" where
  "ExtendibleHashTable_new bucket_sz =
     \<lparr>global_depth = 0, bucket_size = bucket_sz, num_buckets = 1,
      dir = [0], heap = [Bucket_new bucket_sz 0]\<rparr>"

subsection \<open>IndexOf\<close>

text \<open>
  \<open>(1 << d) - 1\<close> is computed in 32-bit \<open>int\<close>. For \<open>d \<le> 30\<close> it is \<open>2^d - 1\<close>; for
  \<open>d = 31\<close> the subtraction overflows and for \<open>d \<ge> 32\<close> the shift itself is undefined:
  \<open>None\<close> stands for this undefined behaviour, here and in every function below.
  \<open>std::hash<K>\<close> is the parameter \<open>h\<close>; only its low 30 bits are ever used.
\<close>

definition low_mask :: "nat \<Rightarrow> nat option" where
  "low_mask d = (if d < 31 then Some (2 ^ d - 1) else None)"

definition IndexOf :: "('k \<Rightarrow> nat) \<Rightarrow> ('k, 'v) ExtendibleHashTable \<Rightarrow> 'k \<Rightarrow> nat option" where
  "IndexOf h t key =
     (case low_mask (global_depth t) of None \<Rightarrow> None | Some m \<Rightarrow> Some (h key AND m))"

text \<open>
  \<open>dir_[idx]\<close> and the bucket it points to: the pointer and the bucket.
\<close>

definition dir_at :: "('k, 'v) ExtendibleHashTable \<Rightarrow> nat \<Rightarrow> (nat \<times> ('k, 'v) Bucket) option" where
  "dir_at t idx =
     (if idx < length (dir t) \<and> dir t ! idx < length (heap t)
      then Some (dir t ! idx, heap t ! (dir t ! idx)) else None)"

subsection \<open>Bucket::Find, Bucket::Remove, Bucket::Insert\<close>

text \<open>
  The three loops over \<open>list_\<close>: the first node with the key is read, erased, or gets
  the new value.
\<close>

fun list_find :: "('k \<times> 'v) list \<Rightarrow> 'k \<Rightarrow> 'v option" where
  "list_find [] key = None"
| "list_find (node # rest) key = (if fst node = key then Some (snd node) else list_find rest key)"

definition Bucket_Find :: "('k, 'v) Bucket \<Rightarrow> 'k \<Rightarrow> 'v option" where
  "Bucket_Find b key = list_find (b_list b) key"

fun list_remove :: "('k \<times> 'v) list \<Rightarrow> 'k \<Rightarrow> bool \<times> ('k \<times> 'v) list" where
  "list_remove [] key = (False, [])"
| "list_remove (node # rest) key =
     (if key = fst node then (True, rest)
      else (fst (list_remove rest key), node # snd (list_remove rest key)))"

definition Bucket_Remove :: "('k, 'v) Bucket \<Rightarrow> 'k \<Rightarrow> bool \<times> ('k, 'v) Bucket" where
  "Bucket_Remove b key =
     (fst (list_remove (b_list b) key), b\<lparr>b_list := snd (list_remove (b_list b) key)\<rparr>)"

fun list_assign :: "('k \<times> 'v) list \<Rightarrow> 'k \<Rightarrow> 'v \<Rightarrow> ('k \<times> 'v) list option" where
  "list_assign [] key value = None"
| "list_assign (node # rest) key value =
     (if fst node = key then Some ((fst node, value) # rest)
      else map_option ((#) node) (list_assign rest key value))"

text \<open>
  Modelled from the spec: \<open>Bucket::IsFull\<close> is defined in the header, which is not among
  the sources. The specification appends an entry "if the bucket has spare capacity" and
  splits "if the bucket is full", and bounds every bucket by its capacity: a bucket is
  full when it has no spare capacity.
\<close>

definition IsFull :: "('k, 'v) Bucket \<Rightarrow> bool" where
  "IsFull b \<longleftrightarrow> length (b_list b) \<ge> b_size b"

text \<open>
  \<open>Bucket::Insert\<close> returns \<open>false\<close> (here \<open>None\<close>) when the key is new and the bucket
  is full, and the changed bucket otherwise.
\<close>

definition Bucket_Insert :: "('k, 'v) Bucket \<Rightarrow> 'k \<Rightarrow> 'v \<Rightarrow> ('k, 'v) Bucket option" where
  "Bucket_Insert b key value =
     (case list_assign (b_list b) key value of
        Some l \<Rightarrow> Some (b\<lparr>b_list := l\<rparr>)
      | None \<Rightarrow> if IsFull b then None else Some (b\<lparr>b_list := b_list b @ [(key, value)]\<rparr>))"

subsection \<open>Find and Remove\<close>

text \<open>
  \<open>Find\<close> returns the value found, if any; \<open>Remove\<close> (named \<open>Remove_key\<close>, the tracker
  has a \<open>Remove\<close> too) returns the flag and the new table. The outer \<open>option\<close> is \<open>None\<close>
  for undefined behaviour (the mask, or a slot outside the directory).
\<close>

definition Find :: "('k \<Rightarrow> nat) \<Rightarrow> ('k, 'v) ExtendibleHashTable \<Rightarrow> 'k \<Rightarrow> 'v option option" where
  "Find h t key =
     (case IndexOf h t key of
        None \<Rightarrow> None
      | Some idx \<Rightarrow>
          (case dir_at t idx of
             None \<Rightarrow> None
           | Some (a, bucket) \<Rightarrow> Some (Bucket_Find bucket key)))"

definition Remove_key ::
  "('k \<Rightarrow> nat) \<Rightarrow> ('k, 'v) ExtendibleHashTable \<Rightarrow> 'k \<Rightarrow> (bool \<times> ('k, 'v) ExtendibleHashTable) option" where
  "Remove_key h t key =
     (case IndexOf h t key of
        None \<Rightarrow> None
      | Some idx \<Rightarrow>
          (case dir_at t idx of
             None \<Rightarrow> None
           | Some (a, bucket) \<Rightarrow>
               Some (fst (Bucket_Remove bucket key),
                     t\<lparr>heap := (heap t)[a := snd (Bucket_Remove bucket key)]\<rparr>)))"

subsection \<open>InsertInternal and Insert\<close>

text \<open>
  The body of \<open>InsertInternal\<close> after a failed \<open>Bucket::Insert\<close>, in the order of the
  code. \<open>grow\<close>: when the bucket's depth equals the global depth, the global depth goes up
  by one and every slot is pushed back once more.
\<close>

definition grow :: "('k, 'v) ExtendibleHashTable \<Rightarrow> ('k, 'v) Bucket \<Rightarrow> ('k, 'v) ExtendibleHashTable" where
  "grow t bucket =
     (if global_depth t = b_depth bucket
      then t\<lparr>global_depth := global_depth t + 1, dir := dir t @ dir t\<rparr>
      else t)"

text \<open>
  The loop over the items of the full bucket: \<open>IndexOf\<close> (with the global depth after
  \<open>grow\<close>) masked by \<open>split_mask\<close> decides between the two new buckets; the order of the
  items is kept.
\<close>

fun redistribute ::
  "('k \<Rightarrow> nat) \<Rightarrow> ('k, 'v) ExtendibleHashTable \<Rightarrow> nat \<Rightarrow> nat \<Rightarrow> ('k \<times> 'v) list \<Rightarrow>
     (('k \<times> 'v) list \<times> ('k \<times> 'v) list) option" where
  "redistribute h t split_mask low_index [] = Some ([], [])"
| "redistribute h t split_mask low_index (ele # rest) =
     (case IndexOf h t (fst ele) of
        None \<Rightarrow> None
      | Some split_index \<Rightarrow>
          (case redistribute h t split_mask low_index rest of
             None \<Rightarrow> None
           | Some (items1, items2) \<Rightarrow>
               if split_index AND split_mask = low_index then Some (ele # items1, items2)
               else Some (items1, ele # items2)))"

text \<open>
  The loop over the directory: the slots whose low bits are \<open>low_index\<close> are pointed to one
  of the two new buckets.
\<close>

definition repoint :: "nat list \<Rightarrow> nat \<Rightarrow> nat \<Rightarrow> nat \<Rightarrow> nat \<Rightarrow> nat \<Rightarrow> nat list" where
  "repoint d base_mask split_mask low_index new_bucket_1 new_bucket_2 =
     map (\<lambda>i. if i AND base_mask = low_index
               then (if i AND split_mask = low_index then new_bucket_1 else new_bucket_2)
               else d ! i) [0..<length d]"

text \<open>
  \<open>split_core\<close>: the two masks, the two new buckets (at the next two free positions of the
  store), the redistribution, the new directory and \<open>num_buckets_++\<close>. \<open>idx\<close> and
  \<open>bucket\<close> are those found before \<open>grow\<close>.
\<close>

definition split_core ::
  "('k \<Rightarrow> nat) \<Rightarrow> ('k, 'v) ExtendibleHashTable \<Rightarrow> nat \<Rightarrow> ('k, 'v) Bucket \<Rightarrow>
     ('k, 'v) ExtendibleHashTable option" where
  "split_core h t idx bucket =
     (let new_depth = b_depth bucket + 1 in
      case low_mask (b_depth bucket) of
        None \<Rightarrow> None
      | Some base_mask \<Rightarrow>
          (case low_mask new_depth of
             None \<Rightarrow> None
           | Some split_mask \<Rightarrow>
               let new_bucket_1 = length (heap t);
                   new_bucket_2 = length (heap t) + 1;
                   low_index = idx AND base_mask
               in (case redistribute h t split_mask low_index (b_list bucket) of
                     None \<Rightarrow> None
                   | Some (items1, items2) \<Rightarrow>
                       Some (t\<lparr>heap := heap t @
                                  [(Bucket_new (bucket_size t) new_depth)\<lparr>b_list := items1\<rparr>,
                                   (Bucket_new (bucket_size t) new_depth)\<lparr>b_list := items2\<rparr>],
                                dir := repoint (dir t) base_mask split_mask low_index
                                         new_bucket_1 new_bucket_2,
                                num_buckets := num_buckets t + 1\<rparr>))))"

definition split_bucket ::
  "('k \<Rightarrow> nat) \<Rightarrow> ('k, 'v) ExtendibleHashTable \<Rightarrow> nat \<Rightarrow> ('k, 'v) Bucket \<Rightarrow>
     ('k, 'v) ExtendibleHashTable option" where
  "split_bucket h t idx bucket = split_core h (grow t bucket) idx bucket"

text \<open>
  \<open>InsertInternal\<close> retries after every split. The recursion is total: every split raises the
  depth of the key's bucket by one, and the mask is undefined from depth 31 on (the
  termination proof is below, after the lemmas it needs).
\<close>

function InsertInternal ::
  "('k \<Rightarrow> nat) \<Rightarrow> ('k, 'v) ExtendibleHashTable \<Rightarrow> 'k \<Rightarrow> 'v \<Rightarrow> ('k, 'v) ExtendibleHashTable option" where
  "InsertInternal h t key value =
     (case IndexOf h t key of
        None \<Rightarrow> None
      | Some idx \<Rightarrow>
          (case dir_at t idx of
             None \<Rightarrow> None
           | Some (a, bucket) \<Rightarrow>
               (case Bucket_Insert bucket key value of
                  Some bucket' \<Rightarrow> Some (t\<lparr>heap := (heap t)[a := bucket']\<rparr>)
                | None \<Rightarrow>
                    (case split_bucket h t idx bucket of
                       None \<Rightarrow> None
                     | Some t' \<Rightarrow> InsertInternal h t' key value))))"
  by pat_completeness auto

definition Insert ::
  "('k \<Rightarrow> nat) \<Rightarrow> ('k, 'v) ExtendibleHashTable \<Rightarrow> 'k \<Rightarrow> 'v \<Rightarrow> ('k, 'v) ExtendibleHashTable option" where
  "Insert h t key value = InsertInternal h t key value"

text \<open>
  Inserting a list of entries one after the other, and the states a table can be in: the
  constructed one and every state that \<open>Insert\<close> or \<open>Remove\<close> returns from a reachable one.
\<close>

fun Insert_all ::
  "('k \<Rightarrow> nat) \<Rightarrow> ('k, 'v) ExtendibleHashTable \<Rightarrow> ('k \<times> 'v) list \<Rightarrow> ('k, 'v) ExtendibleHashTable option" where
  "Insert_all h t [] = Some t"
| "Insert_all h t (kv # kvs) =
     (case Insert h t (fst kv) (snd kv) of None \<Rightarrow> None | Some t' \<Rightarrow> Insert_all h t' kvs)"

inductive ht_reachable :: "('k \<Rightarrow> nat) \<Rightarrow> nat \<Rightarrow> ('k, 'v) ExtendibleHashTable \<Rightarrow> bool"
  for h :: "'k \<Rightarrow> nat" and n :: nat where
  ht_new: "ht_reachable h n (ExtendibleHashTable_new n)"
| ht_Insert: "ht_reachable h n t \<Longrightarrow> Insert h t key value = Some t' \<Longrightarrow> ht_reachable h n t'"
| ht_Remove: "ht_reachable h n t \<Longrightarrow> Remove_key h t key = Some (r, t') \<Longrightarrow> ht_reachable h n t'"

subsection \<open>Notions used to state the table's properties\<close>

text \<open>
  \<open>target_depth\<close> is the depth of the bucket a key is sent to (the measure of the
  recursion); \<open>slot_bucket t i\<close> is the bucket slot \<open>i\<close> points to. \<open>crowd h t key D\<close> counts
  the entries of the key's bucket whose hashes agree with the key's on the low \<open>D\<close> bits.
  \<open>bucket_ok\<close> and \<open>ht_inv\<close> are the invariant of reachable tables, and \<open>lookup\<close> is what
  \<open>Find\<close> returns in them.
\<close>

definition target_depth :: "('k \<Rightarrow> nat) \<Rightarrow> ('k, 'v) ExtendibleHashTable \<Rightarrow> 'k \<Rightarrow> nat option" where
  "target_depth h t key =
     (case IndexOf h t key of
        None \<Rightarrow> None
      | Some idx \<Rightarrow> map_option (\<lambda>(a, bucket). b_depth bucket) (dir_at t idx))"

definition slot_bucket :: "('k, 'v) ExtendibleHashTable \<Rightarrow> nat \<Rightarrow> ('k, 'v) Bucket" where
  "slot_bucket t i = heap t ! (dir t ! i)"

definition crowd :: "('k \<Rightarrow> nat) \<Rightarrow> ('k, 'v) ExtendibleHashTable \<Rightarrow> 'k \<Rightarrow> nat \<Rightarrow> nat" where
  "crowd h t key D =
     length (filter (\<lambda>x. h (fst x) mod 2 ^ D = h key mod 2 ^ D)
       (b_list (slot_bucket t (h key mod 2 ^ global_depth t))))"

definition bucket_ok :: "('k \<Rightarrow> nat) \<Rightarrow> nat \<Rightarrow> nat \<Rightarrow> nat \<Rightarrow> ('k, 'v) Bucket \<Rightarrow> bool" where
  "bucket_ok h g n i b \<longleftrightarrow>
     b_depth b \<le> g \<and> b_size b = n \<and> length (b_list b) \<le> n \<and> distinct (map fst (b_list b)) \<and>
     (\<forall>e\<in>set (b_list b). h (fst e) mod 2 ^ b_depth b = i mod 2 ^ b_depth b)"

definition ht_inv :: "('k \<Rightarrow> nat) \<Rightarrow> ('k, 'v) ExtendibleHashTable \<Rightarrow> bool" where
  "ht_inv h t \<longleftrightarrow>
     global_depth t \<le> 30 \<and> length (dir t) = 2 ^ global_depth t \<and>
     (\<forall>i<length (dir t). dir t ! i < length (heap t) \<and>
        bucket_ok h (global_depth t) (bucket_size t) i (slot_bucket t i)) \<and>
     (\<forall>i<length (dir t). \<forall>j<length (dir t).
        (i mod 2 ^ b_depth (slot_bucket t i) = j mod 2 ^ b_depth (slot_bucket t i)) =
        (dir t ! i = dir t ! j))"

definition lookup :: "('k \<Rightarrow> nat) \<Rightarrow> ('k, 'v) ExtendibleHashTable \<Rightarrow> 'k \<Rightarrow> 'v option" where
  "lookup h t key = list_find (b_list (slot_bucket t (h key mod 2 ^ global_depth t))) key"

text \<open>
  The table after inserting the keys 0, 2 and 4 (hash: the identity) with bucket capacity 2.
\<close>

definition three_keys :: "(nat, nat) ExtendibleHashTable" where
  "three_keys =
     \<lparr>global_depth = 2, bucket_size = 2, num_buckets = 3, dir = [3, 2, 4, 2],
      heap = [\<lparr>b_size = 2, b_depth = 0, b_list = [(0, 10), (2, 20)]\<rparr>,
              \<lparr>b_size = 2, b_depth = 1, b_list = [(0, 10), (2, 20)]\<rparr>,
              \<lparr>b_size = 2, b_depth = 1, b_list = []\<rparr>,
              \<lparr>b_size = 2, b_depth = 2, b_list = [(0, 10), (4, 40)]\<rparr>,
              \<lparr>b_size = 2, b_depth = 2, b_list = [(2, 20)]\<rparr>]\<rparr>"


section \<open>Properties of the eviction tracker\<close>

subsection \<open>The invariant of reachable states\<close>

lemma card_frames_le: "card (A :: frame_id_t set) \<le> 2 ^ 32"
proof -
  have "card A \<le> card (UNIV :: frame_id_t set)" by (rule card_mono) auto
  then show ?thesis by (simp add: card_word)
qed

lemma unat_succ_card:
  fixes c :: "64 word" and A :: "frame_id_t set"
  assumes "unat c = card A"
  shows "unat (c + 1) = Suc (card A)"
proof -
  have "card A \<le> 2 ^ 32" by (rule card_frames_le)
  then have "unat c + 1 < 2 ^ 64" using assms by simp
  then have "unat (c + 1) = unat c + 1"
    by (simp add: unat_word_ariths)
  then show ?thesis using assms by simp
qed

lemma unat_pred_card:
  fixes c :: "64 word"
  assumes "unat c = n" "0 < n"
  shows "unat (c - 1) = n - 1"
proof -
  have "c \<noteq> 0" using assms by auto
  then have "unat (c - 1) = unat c - 1" by (simp add: unat_minus_one)
  then show ?thesis using assms by simp
qed

lemma evictable_set_upd:
  "{f. is_evictable (ents(g \<mapsto> e)) f} =
     (if evictable e then insert g {f. is_evictable ents f} else {f. is_evictable ents f} - {g})"
  by (auto simp: is_evictable_def)

lemma evictable_set_del:
  "{f. is_evictable (ents(g := None)) f} = {f. is_evictable ents f} - {g}"
  by (auto simp: is_evictable_def)

lemma lru_inv_new: "lru_inv (LRUKReplacer_new n k)"
  by (simp add: lru_inv_def LRUKReplacer_new_def is_evictable_def)

lemma RecordAccess_known:
  assumes "lru_inv s" "\<not> out_of_range s f" "frame_entities s f = Some e"
  shows "RecordAccess s f = Some
     (if hit_count e + 1 = lru_k s then
        s\<lparr>hist_list := remove1 f (hist_list s), cache_list := f # cache_list s,
          frame_entities := (frame_entities s)(f \<mapsto> e\<lparr>hit_count := hit_count e + 1, it := Cache_node\<rparr>)\<rparr>
      else if hit_count e + 1 > lru_k s then
        s\<lparr>cache_list := f # remove1 f (cache_list s),
          frame_entities := (frame_entities s)(f \<mapsto> e\<lparr>hit_count := hit_count e + 1, it := Cache_node\<rparr>)\<rparr>
      else s\<lparr>frame_entities := (frame_entities s)(f \<mapsto> e\<lparr>hit_count := hit_count e + 1\<rparr>)\<rparr>)"
proof -
  from assms(1,3) have pos:
    "if hit_count e < lru_k s then f \<in> set (hist_list s) \<and> it e = Hist_node
     else f \<in> set (cache_list s) \<and> it e = Cache_node"
    unfolding lru_inv_def by blast
  show ?thesis
    using assms(2,3) pos
    by (auto simp: RecordAccess_def Let_def list_erase_def split: if_splits)
qed

lemma RecordAccess_unknown:
  assumes "\<not> out_of_range s f" "frame_entities s f = None" "1 \<le> lru_k s"
  shows "RecordAccess s f = Some
     (if lru_k s = 1 then
        s\<lparr>cache_list := f # cache_list s,
          frame_entities := (frame_entities s)
            (f \<mapsto> \<lparr>hit_count = 1, evictable = True, it = Cache_node\<rparr>),
          curr_size := curr_size s + 1\<rparr>
      else
        s\<lparr>hist_list := f # hist_list s,
          frame_entities := (frame_entities s)
            (f \<mapsto> \<lparr>hit_count = 1, evictable = True, it = Hist_node\<rparr>),
          curr_size := curr_size s + 1\<rparr>)"
  using assms
  by (auto simp: RecordAccess_def Let_def list_erase_def add_new_def)

lemma RecordAccess_unknown_k0:
  assumes "\<not> out_of_range s f" "frame_entities s f = None" "lru_k s = 0"
  shows "RecordAccess s f = None"
  using assms
  by (auto simp: RecordAccess_def Let_def list_erase_def add_new_def)

lemma lru_inv_tracked:
  "lru_inv s \<Longrightarrow> frame_entities s f = None \<Longrightarrow> f \<notin> set (hist_list s) \<and> f \<notin> set (cache_list s)"
  unfolding lru_inv_def by (metis Un_iff domIff)

lemma lru_inv_pos:
  "lru_inv s \<Longrightarrow> frame_entities s f = Some e \<Longrightarrow>
     (if hit_count e < lru_k s then f \<in> set (hist_list s) \<and> f \<notin> set (cache_list s) \<and> it e = Hist_node
      else f \<in> set (cache_list s) \<and> f \<notin> set (hist_list s) \<and> it e = Cache_node)"
  unfolding lru_inv_def by (metis (no_types, lifting) disjoint_iff)

lemma evictable_unknown: "ents f = None \<Longrightarrow> \<not> is_evictable ents f"
  by (simp add: is_evictable_def)

lemma lru_inv_add_hist:
  assumes "lru_inv s" "frame_entities s f = None" "1 < lru_k s"
  shows "lru_inv (s\<lparr>hist_list := f # hist_list s,
          frame_entities := (frame_entities s)
            (f \<mapsto> \<lparr>hit_count = 1, evictable = True, it = Hist_node\<rparr>),
          curr_size := curr_size s + 1\<rparr>)"
proof -
  note nt = lru_inv_tracked [OF assms(1,2)]
  have c: "unat (curr_size s + 1) = Suc (card {g. is_evictable (frame_entities s) g})"
    using assms(1) by (intro unat_succ_card) (simp add: lru_inv_def)
  have nin: "f \<notin> {g. is_evictable (frame_entities s) g}"
    using assms(2) by (simp add: evictable_unknown)
  show ?thesis
    using assms nt c nin unfolding lru_inv_def
    by (auto simp: evictable_set_upd)
qed

lemma lru_inv_add_cache:
  assumes "lru_inv s" "frame_entities s f = None" "lru_k s = 1"
  shows "lru_inv (s\<lparr>cache_list := f # cache_list s,
          frame_entities := (frame_entities s)
            (f \<mapsto> \<lparr>hit_count = 1, evictable = True, it = Cache_node\<rparr>),
          curr_size := curr_size s + 1\<rparr>)"
proof -
  note nt = lru_inv_tracked [OF assms(1,2)]
  have c: "unat (curr_size s + 1) = Suc (card {g. is_evictable (frame_entities s) g})"
    using assms(1) by (intro unat_succ_card) (simp add: lru_inv_def)
  have nin: "f \<notin> {g. is_evictable (frame_entities s) g}"
    using assms(2) by (simp add: evictable_unknown)
  show ?thesis
    using assms nt c nin unfolding lru_inv_def
    by (auto simp: evictable_set_upd)
qed

lemma evictable_set_same:
  "ents f = Some e \<Longrightarrow> evictable e' = evictable e \<Longrightarrow>
     {g. is_evictable (ents(f \<mapsto> e')) g} = {g. is_evictable ents g}"
  by (auto simp: is_evictable_def)

lemma lru_inv_known:
  assumes "lru_inv s" "frame_entities s f = Some e"
  shows "lru_inv
     (if hit_count e + 1 = lru_k s then
        s\<lparr>hist_list := remove1 f (hist_list s), cache_list := f # cache_list s,
          frame_entities := (frame_entities s)(f \<mapsto> e\<lparr>hit_count := hit_count e + 1, it := Cache_node\<rparr>)\<rparr>
      else if hit_count e + 1 > lru_k s then
        s\<lparr>cache_list := f # remove1 f (cache_list s),
          frame_entities := (frame_entities s)(f \<mapsto> e\<lparr>hit_count := hit_count e + 1, it := Cache_node\<rparr>)\<rparr>
      else s\<lparr>frame_entities := (frame_entities s)(f \<mapsto> e\<lparr>hit_count := hit_count e + 1\<rparr>)\<rparr>)"
proof -
  note pos = lru_inv_pos [OF assms]
  have ev: "\<And>e'. evictable e' = evictable e \<Longrightarrow>
     {g. is_evictable ((frame_entities s)(f \<mapsto> e')) g} = {g. is_evictable (frame_entities s) g}"
    using assms(2) by (rule evictable_set_same)
  show ?thesis
    using assms pos unfolding lru_inv_def
    by (auto simp: ev split: if_splits)
qed

lemma lru_inv_RecordAccess:
  assumes "lru_inv s" "RecordAccess s f = Some s'"
  shows "lru_inv s'"
proof (cases "out_of_range s f")
  case True
  then show ?thesis using assms by (simp add: RecordAccess_def)
next
  case False
  show ?thesis
  proof (cases "frame_entities s f")
    case None
    show ?thesis
    proof (cases "lru_k s = 0")
      case True
      then show ?thesis using RecordAccess_unknown_k0 [OF False None] assms(2) by simp
    next
      case k: False
      then have "1 \<le> lru_k s" by simp
      from RecordAccess_unknown [OF False None this] assms(2)
      show ?thesis
        using lru_inv_add_hist [OF assms(1) None] lru_inv_add_cache [OF assms(1) None] k
        by (auto split: if_splits)
    qed
  next
    case (Some e)
    from RecordAccess_known [OF assms(1) False Some] assms(2) lru_inv_known [OF assms(1) Some]
    show ?thesis by simp
  qed
qed

lemma evictable_known: "ents f = Some e \<Longrightarrow> is_evictable ents f = evictable e"
  by (simp add: is_evictable_def)

lemma lru_inv_SetEvictable:
  assumes "lru_inv s"
  shows "lru_inv (SetEvictable s f b)"
proof (cases "out_of_range s f \<or> frame_entities s f = None")
  case True
  then show ?thesis using assms by (auto simp: SetEvictable_def)
next
  case False
  then obtain e where e: "frame_entities s f = Some e" and r: "\<not> out_of_range s f" by auto
  let ?A = "{g. is_evictable (frame_entities s) g}"
  have cs: "unat (curr_size s) = card ?A" using assms by (simp add: lru_inv_def)
  have mem: "f \<in> ?A \<longleftrightarrow> evictable e" using e by (simp add: evictable_known)
  have up: "evictable e \<Longrightarrow> \<not> b \<Longrightarrow> unat (curr_size s - 1) = card (?A - {f})"
  proof -
    assume "evictable e" "\<not> b"
    then have "f \<in> ?A" using mem by simp
    then have "0 < card ?A" by (auto simp: card_gt_0_iff)
    from unat_pred_card [OF cs this] \<open>f \<in> ?A\<close> show ?thesis by simp
  qed
  have down: "\<not> evictable e \<Longrightarrow> b \<Longrightarrow> unat (curr_size s + 1) = card (insert f ?A)"
  proof -
    assume "\<not> evictable e" "b"
    then have "f \<notin> ?A" using mem by simp
    with unat_succ_card [OF cs] show ?thesis by simp
  qed
  have same1: "evictable e \<Longrightarrow> insert f ?A = ?A" using mem by auto
  have same2: "\<not> evictable e \<Longrightarrow> ?A - {f} = ?A" using mem by auto
  note pos = lru_inv_pos [OF assms e]
  show ?thesis
    using assms e r pos up down same1 same2 cs unfolding lru_inv_def SetEvictable_def
    by (auto simp: Let_def evictable_set_upd split: if_splits)
qed

lemma lru_inv_erased_hist:
  assumes "lru_inv s" "frame_entities s f = Some e" "evictable e" "f \<in> set (hist_list s)"
  shows "lru_inv (s\<lparr>hist_list := remove1 f (hist_list s),
                    frame_entities := (frame_entities s)(f := None),
                    curr_size := curr_size s - 1\<rparr>)"
proof -
  let ?A = "{g. is_evictable (frame_entities s) g}"
  have cs: "unat (curr_size s) = card ?A" using assms by (simp add: lru_inv_def)
  have "f \<in> ?A" using assms(2,3) by (simp add: evictable_known)
  then have "0 < card ?A" by (auto simp: card_gt_0_iff)
  from unat_pred_card [OF cs this] \<open>f \<in> ?A\<close>
  have c: "unat (curr_size s - 1) = card (?A - {f})" by simp
  have nc: "f \<notin> set (cache_list s)" using assms(1,4) by (auto simp: lru_inv_def)
  show ?thesis
    using assms c nc unfolding lru_inv_def
    by (auto simp: evictable_set_del split: if_splits)
qed

lemma lru_inv_erased_cache:
  assumes "lru_inv s" "frame_entities s f = Some e" "evictable e" "f \<in> set (cache_list s)"
  shows "lru_inv (s\<lparr>cache_list := remove1 f (cache_list s),
                    frame_entities := (frame_entities s)(f := None),
                    curr_size := curr_size s - 1\<rparr>)"
proof -
  let ?A = "{g. is_evictable (frame_entities s) g}"
  have cs: "unat (curr_size s) = card ?A" using assms by (simp add: lru_inv_def)
  have "f \<in> ?A" using assms(2,3) by (simp add: evictable_known)
  then have "0 < card ?A" by (auto simp: card_gt_0_iff)
  from unat_pred_card [OF cs this] \<open>f \<in> ?A\<close>
  have c: "unat (curr_size s - 1) = card (?A - {f})" by simp
  have nc: "f \<notin> set (hist_list s)" using assms(1,4) by (auto simp: lru_inv_def)
  show ?thesis
    using assms c nc unfolding lru_inv_def
    by (auto simp: evictable_set_del split: if_splits)
qed

lemma Remove_known:
  assumes "lru_inv s" "\<not> out_of_range s f" "frame_entities s f = Some e" "evictable e"
  shows "Remove s f = Some
     (if hit_count e < lru_k s then
        s\<lparr>hist_list := remove1 f (hist_list s),
          frame_entities := (frame_entities s)(f := None),
          curr_size := curr_size s - 1\<rparr>
      else
        s\<lparr>cache_list := remove1 f (cache_list s),
          frame_entities := (frame_entities s)(f := None),
          curr_size := curr_size s - 1\<rparr>)"
  using assms(2-4) lru_inv_pos [OF assms(1,3)]
  by (auto simp: Remove_def list_erase_def split: if_splits)

lemma lru_inv_Remove:
  assumes "lru_inv s" "Remove s f = Some s'"
  shows "lru_inv s'"
proof (cases "out_of_range s f \<or> frame_entities s f = None")
  case True
  then show ?thesis using assms by (auto simp: Remove_def split: if_splits)
next
  case False
  then obtain e where e: "frame_entities s f = Some e" and r: "\<not> out_of_range s f" by auto
  show ?thesis
  proof (cases "evictable e")
    case False
    then show ?thesis using assms e r by (simp add: Remove_def)
  next
    case True
    note pos = lru_inv_pos [OF assms(1) e]
    from Remove_known [OF assms(1) r e True] assms(2)
    show ?thesis
      using lru_inv_erased_hist [OF assms(1) e True] lru_inv_erased_cache [OF assms(1) e True] pos
      by (auto split: if_splits)
  qed
qed

lemma scan_tracked:
  assumes "\<forall>f\<in>set xs. ents f \<noteq> None"
  shows "scan ents xs =
     (case filter (is_evictable ents) xs of
        [] \<Rightarrow> No_victim
      | f # fs \<Rightarrow> Victim f (the (ents f)))"
  using assms
  by (induction xs) (auto simp: is_evictable_def split: option.splits)

lemma scan_rev:
  assumes "\<forall>f\<in>set xs. ents f \<noteq> None"
  shows "scan ents (rev xs) =
     (case lru_victim ents xs of None \<Rightarrow> No_victim | Some f \<Rightarrow> Victim f (the (ents f)))"
proof -
  have "\<forall>f\<in>set (rev xs). ents f \<noteq> None" using assms by simp
  from scan_tracked [OF this]
  have "scan ents (rev xs) =
     (case rev (filter (is_evictable ents) xs) of
        [] \<Rightarrow> No_victim
      | f # fs \<Rightarrow> Victim f (the (ents f)))"
    by (simp add: rev_filter)
  then show ?thesis
    by (cases "filter (is_evictable ents) xs" rule: rev_cases)
       (simp_all add: lru_victim_def)
qed

lemma lru_victim_Some:
  "lru_victim ents xs = Some f \<Longrightarrow> f \<in> set xs \<and> is_evictable ents f"
proof -
  assume a: "lru_victim ents xs = Some f"
  then have ne: "filter (is_evictable ents) xs \<noteq> []" and "f = last (filter (is_evictable ents) xs)"
    by (auto simp: lru_victim_def Let_def split: if_splits)
  then have "f \<in> set (filter (is_evictable ents) xs)" using last_in_set by metis
  then show ?thesis by simp
qed

lemma lru_victim_None:
  "lru_victim ents xs = None \<longleftrightarrow> (\<forall>f\<in>set xs. \<not> is_evictable ents f)"
  by (simp add: lru_victim_def Let_def filter_empty_conv)

lemma lru_inv_lists_tracked:
  "lru_inv s \<Longrightarrow> \<forall>f\<in>set (hist_list s) \<union> set (cache_list s). frame_entities s f \<noteq> None"
  unfolding lru_inv_def by (metis domIff)

lemma Evict_empty: "curr_size s = 0 \<Longrightarrow> Evict s out = Some (False, out, s)"
  by (simp add: Evict_def)

lemma Evict_hist:
  assumes "lru_inv s" "curr_size s \<noteq> 0" "lru_victim (frame_entities s) (hist_list s) = Some f"
  shows "Evict s out = Some (True, f,
           s\<lparr>hist_list := remove1 f (hist_list s),
             frame_entities := (frame_entities s)(f := None),
             curr_size := curr_size s - 1\<rparr>)"
proof -
  have tr: "\<forall>f\<in>set (hist_list s). frame_entities s f \<noteq> None"
    using lru_inv_lists_tracked [OF assms(1)] by simp
  from lru_victim_Some [OF assms(3)]
  have mem: "f \<in> set (hist_list s)" by simp
  then obtain e where e: "frame_entities s f = Some e" using tr by auto
  from lru_inv_pos [OF assms(1) e] mem have it: "it e = Hist_node"
    by (auto split: if_splits)
  have nz: "\<not> curr_size s \<le> 0" using assms(2) by simp
  show ?thesis
    using nz e it mem assms(3)
    by (simp add: Evict_def scan_rev [OF tr] list_erase_def)
qed

lemma Evict_cache:
  assumes "lru_inv s" "curr_size s \<noteq> 0" "lru_victim (frame_entities s) (hist_list s) = None"
    "lru_victim (frame_entities s) (cache_list s) = Some f"
  shows "Evict s out = Some (True, f,
           s\<lparr>cache_list := remove1 f (cache_list s),
             frame_entities := (frame_entities s)(f := None),
             curr_size := curr_size s - 1\<rparr>)"
proof -
  have tr: "\<forall>f\<in>set (hist_list s). frame_entities s f \<noteq> None"
    and tr': "\<forall>f\<in>set (cache_list s). frame_entities s f \<noteq> None"
    using lru_inv_lists_tracked [OF assms(1)] by simp_all
  from lru_victim_Some [OF assms(4)]
  have mem: "f \<in> set (cache_list s)" by simp
  then obtain e where e: "frame_entities s f = Some e" using tr' by auto
  from lru_inv_pos [OF assms(1) e] mem have it: "it e = Cache_node"
    by (auto split: if_splits)
  have nz: "\<not> curr_size s \<le> 0" using assms(2) by simp
  show ?thesis
    using nz e it mem assms(3,4)
    by (simp add: Evict_def scan_rev [OF tr] scan_rev [OF tr'] list_erase_def)
qed

lemma lru_inv_some_victim:
  assumes "lru_inv s" "curr_size s \<noteq> 0" "lru_victim (frame_entities s) (hist_list s) = None"
  shows "\<exists>f. lru_victim (frame_entities s) (cache_list s) = Some f"
proof (rule ccontr)
  assume "\<not> ?thesis"
  then have "lru_victim (frame_entities s) (cache_list s) = None" by simp
  with assms(3) have no: "\<forall>f\<in>set (hist_list s) \<union> set (cache_list s). \<not> is_evictable (frame_entities s) f"
    by (auto simp: lru_victim_None)
  have "{f. is_evictable (frame_entities s) f} = {}"
  proof -
    { fix f assume ev: "is_evictable (frame_entities s) f"
      then have "f \<in> dom (frame_entities s)" by (auto simp: is_evictable_def split: option.splits)
      then have "f \<in> set (hist_list s) \<union> set (cache_list s)" using assms(1) by (simp add: lru_inv_def)
      with no ev have False by blast }
    then show ?thesis by blast
  qed
  then have "unat (curr_size s) = 0" using assms(1) by (simp add: lru_inv_def)
  then show False using assms(2) by (simp add: unat_eq_0)
qed

lemma is_evictable_SomeD: "is_evictable ents f \<Longrightarrow> \<exists>e. ents f = Some e \<and> evictable e"
  by (auto simp: is_evictable_def split: option.splits)

lemma Evict_cases:
  assumes "lru_inv s"
  shows "Evict s out =
     (if curr_size s = 0 then Some (False, out, s)
      else case lru_victim (frame_entities s) (hist_list s) of
        Some f \<Rightarrow> Some (True, f,
           s\<lparr>hist_list := remove1 f (hist_list s),
             frame_entities := (frame_entities s)(f := None),
             curr_size := curr_size s - 1\<rparr>)
      | None \<Rightarrow>
         (case lru_victim (frame_entities s) (cache_list s) of
            Some f \<Rightarrow> Some (True, f,
               s\<lparr>cache_list := remove1 f (cache_list s),
                 frame_entities := (frame_entities s)(f := None),
                 curr_size := curr_size s - 1\<rparr>)
          | None \<Rightarrow> Some (False, out, s)))"
proof (cases "curr_size s = 0")
  case True
  then show ?thesis by (simp add: Evict_empty)
next
  case nz: False
  show ?thesis
  proof (cases "lru_victim (frame_entities s) (hist_list s)")
    case (Some f)
    then show ?thesis using nz Evict_hist [OF assms nz Some] by simp
  next
    case None
    from lru_inv_some_victim [OF assms nz None]
    obtain f where f: "lru_victim (frame_entities s) (cache_list s) = Some f" by blast
    then show ?thesis using nz None Evict_cache [OF assms nz None f] by simp
  qed
qed

lemma lru_inv_Evict:
  assumes "lru_inv s" "Evict s out = Some (r, out', s')"
  shows "lru_inv s'"
proof (cases "curr_size s = 0")
  case True
  then show ?thesis using assms by (simp add: Evict_empty)
next
  case nz: False
  show ?thesis
  proof (cases "lru_victim (frame_entities s) (hist_list s)")
    case (Some f)
    from lru_victim_Some [OF Some] obtain e where
      "frame_entities s f = Some e" "evictable e" "f \<in> set (hist_list s)"
      using is_evictable_SomeD by blast
    from lru_inv_erased_hist [OF assms(1) this] Evict_hist [OF assms(1) nz Some, of out] assms(2)
    show ?thesis by simp
  next
    case None
    from lru_inv_some_victim [OF assms(1) nz None]
    obtain f where f: "lru_victim (frame_entities s) (cache_list s) = Some f" by blast
    from lru_victim_Some [OF f] obtain e where
      "frame_entities s f = Some e" "evictable e" "f \<in> set (cache_list s)"
      using is_evictable_SomeD by blast
    from lru_inv_erased_cache [OF assms(1) this] Evict_cache [OF assms(1) nz None f, of out] assms(2)
    show ?thesis by simp
  qed
qed

lemma reachable_lru_inv: "reachable s \<Longrightarrow> lru_inv s"
proof (induction rule: reachable.induct)
  case (reach_new num_frames k)
  show ?case by (rule lru_inv_new)
next
  case (reach_RecordAccess s frame_id s')
  then show ?case by (blast intro: lru_inv_RecordAccess)
next
  case (reach_SetEvictable s frame_id set_evictable)
  then show ?case by (blast intro: lru_inv_SetEvictable)
next
  case (reach_Evict s out r out' s')
  then show ?case by (blast intro: lru_inv_Evict)
next
  case (reach_Remove s frame_id s')
  then show ?case by (blast intro: lru_inv_Remove)
qed

lemma under_k_in_hist:
  assumes "lru_inv s" "frame_entities s g = Some e" "evictable e" "hit_count e < lru_k s"
  shows "lru_victim (frame_entities s) (hist_list s) \<noteq> None"
proof -
  from lru_inv_pos [OF assms(1,2)] assms(4) have "g \<in> set (hist_list s)" by simp
  moreover have "is_evictable (frame_entities s) g" using assms(2,3) by (simp add: evictable_known)
  ultimately show ?thesis by (auto simp: lru_victim_None)
qed

lemma hist_victim_under_k:
  assumes "lru_inv s" "lru_victim (frame_entities s) (hist_list s) = Some f"
  shows "\<exists>e. frame_entities s f = Some e \<and> evictable e \<and> hit_count e < lru_k s"
proof -
  from lru_victim_Some [OF assms(2)] obtain e where
    e: "frame_entities s f = Some e" "evictable e" and m: "f \<in> set (hist_list s)"
    using is_evictable_SomeD by blast
  from lru_inv_pos [OF assms(1) e(1)] m have "hit_count e < lru_k s" by (auto split: if_splits)
  with e show ?thesis by blast
qed

lemma tracked_evictable_eq: "tracked_evictable s = {f. is_evictable (frame_entities s) f}"
  by (auto simp: tracked_evictable_def is_evictable_def split: option.splits)

subsection \<open>Recency\<close>

text \<open>
  Every reachable state has a run behind it, and every run keeps the sequences in the
  order of recency as far as \<open>recency_inv\<close> says.
\<close>

lemma accessed_reachable: "accessed tr s \<Longrightarrow> reachable s"
  by (induction rule: accessed.induct) (auto intro: reachable.intros)

lemma reachable_accessed: "reachable s \<Longrightarrow> \<exists>tr. accessed tr s"
proof (induction rule: reachable.induct)
  case (reach_new num_frames k)
  show ?case by (blast intro: accessed_new)
next
  case (reach_RecordAccess s frame_id s')
  then obtain tr where tr: "accessed tr s" by blast
  show ?case
  proof (cases "out_of_range s frame_id")
    case True
    then have "s' = s" using reach_RecordAccess(2) by (simp add: RecordAccess_def)
    with tr show ?thesis by blast
  next
    case False
    from accessed_RecordAccess [OF tr False reach_RecordAccess(2)] show ?thesis by blast
  qed
next
  case (reach_SetEvictable s frame_id set_evictable)
  then show ?case by (blast intro: accessed_SetEvictable)
next
  case (reach_Evict s out r out' s')
  then show ?case by (blast intro: accessed_Evict)
next
  case (reach_Remove s frame_id s')
  then show ?case by (blast intro: accessed_Remove)
qed

lemma last_access_append_same: "last_access (tr @ [f]) f = Suc (length tr)"
  by (simp add: last_access_def)

lemma last_access_append_other: "g \<noteq> f \<Longrightarrow> last_access (tr @ [f]) g = last_access tr g"
  by (simp add: last_access_def)

lemma last_access_le: "last_access tr g \<le> length tr"
proof -
  have "length (dropWhile (\<lambda>x. x \<noteq> g) (rev tr)) \<le> length (rev tr)"
    by (rule length_dropWhile_le)
  then show ?thesis by (simp add: last_access_def)
qed

lemma by_recency_append:
  assumes "f \<notin> set xs" "by_recency tr xs"
  shows "by_recency (tr @ [f]) xs"
proof -
  have "sorted_wrt (\<lambda>a b. last_access (tr @ [f]) b < last_access (tr @ [f]) a) xs"
  proof (rule sorted_wrt_mono_rel [of xs "\<lambda>a b. last_access tr b < last_access tr a"])
    fix a b assume ab: "a \<in> set xs" "b \<in> set xs" "last_access tr b < last_access tr a"
    from ab(1,2) assms(1) have "a \<noteq> f" "b \<noteq> f" by auto
    with ab(3) show "last_access (tr @ [f]) b < last_access (tr @ [f]) a"
      by (simp add: last_access_append_other)
  next
    show "sorted_wrt (\<lambda>a b. last_access tr b < last_access tr a) xs"
      using assms(2) by (simp add: by_recency_def)
  qed
  then show ?thesis by (simp add: by_recency_def)
qed

lemma by_recency_front:
  assumes "f \<notin> set xs" "by_recency tr xs"
  shows "by_recency (tr @ [f]) (f # xs)"
proof -
  have "last_access (tr @ [f]) g < last_access (tr @ [f]) f" if "g \<in> set xs" for g
  proof -
    from that assms(1) have "g \<noteq> f" by auto
    then show ?thesis
      using last_access_le [of tr g]
      by (simp add: last_access_append_same last_access_append_other)
  qed
  then show ?thesis using by_recency_append [OF assms] by (simp add: by_recency_def)
qed

lemma sorted_wrt_remove1: "sorted_wrt R xs \<Longrightarrow> sorted_wrt R (remove1 x xs)"
proof (induction xs)
  case Nil
  then show ?case by simp
next
  case (Cons y ys)
  have "set (remove1 x ys) \<subseteq> set ys" by (rule set_remove1_subset)
  with Cons show ?case by auto
qed

lemma by_recency_remove1: "by_recency tr xs \<Longrightarrow> by_recency tr (remove1 f xs)"
  by (simp add: by_recency_def sorted_wrt_remove1)

lemma by_recency_victim:
  assumes "by_recency tr xs" "lru_victim ents xs = Some f"
    "g \<in> set xs" "is_evictable ents g" "g \<noteq> f"
  shows "last_access tr f < last_access tr g"
proof -
  let ?ys = "filter (is_evictable ents) xs"
  from assms(2) have ne: "?ys \<noteq> []" and f: "f = last ?ys"
    by (auto simp: lru_victim_def Let_def split: if_splits)
  have srt: "sorted_wrt (\<lambda>a b. last_access tr b < last_access tr a) ?ys"
    using assms(1) by (simp add: by_recency_def sorted_wrt_filter)
  from ne have ys: "?ys = butlast ?ys @ [last ?ys]" by simp
  have "g \<in> set ?ys" using assms(3,4) by simp
  then have "g \<in> set (butlast ?ys @ [last ?ys])" using ys by simp
  then have gb: "g \<in> set (butlast ?ys)" using assms(5) f by auto
  have "sorted_wrt (\<lambda>a b. last_access tr b < last_access tr a) (butlast ?ys @ [last ?ys])"
    using srt ys by simp
  then have "\<forall>a\<in>set (butlast ?ys). last_access tr (last ?ys) < last_access tr a"
    by (simp add: sorted_wrt_append)
  with gb f show ?thesis by simp
qed


lemma recency_inv_new: "recency_inv [] (LRUKReplacer_new n k)"
  by (simp add: recency_inv_def by_recency_def LRUKReplacer_new_def)

lemma lru_inv_distinct: "lru_inv s \<Longrightarrow> distinct (hist_list s) \<and> distinct (cache_list s)"
  by (simp add: lru_inv_def)

lemma recency_inv_RecordAccess:
  assumes inv: "lru_inv s" and rec: "recency_inv tr s" and r: "\<not> out_of_range s f"
    and ra: "RecordAccess s f = Some s'"
  shows "recency_inv (tr @ [f]) s'"
proof -
  from rec have c: "by_recency tr (cache_list s)"
    and h: "lru_k s \<le> 2 \<Longrightarrow> by_recency tr (hist_list s)"
    and hc: "\<And>g e. frame_entities s g = Some e \<Longrightarrow> 1 \<le> hit_count e"
    by (simp_all add: recency_inv_def)
  note dist = lru_inv_distinct [OF inv]
  show ?thesis
  proof (cases "frame_entities s f")
    case None
    note nt = lru_inv_tracked [OF inv None]
    have k: "1 \<le> lru_k s"
    proof (rule ccontr)
      assume "\<not> 1 \<le> lru_k s"
      then have "lru_k s = 0" by simp
      from RecordAccess_unknown_k0 [OF r None this] ra show False by simp
    qed
    have cf: "by_recency (tr @ [f]) (f # cache_list s)" using nt c by (simp add: by_recency_front)
    have ca: "by_recency (tr @ [f]) (cache_list s)" using nt c by (simp add: by_recency_append)
    have hf: "lru_k s \<le> 2 \<Longrightarrow> by_recency (tr @ [f]) (f # hist_list s)"
      using nt h by (simp add: by_recency_front)
    have ha: "lru_k s \<le> 2 \<Longrightarrow> by_recency (tr @ [f]) (hist_list s)"
      using nt h by (simp add: by_recency_append)
    from RecordAccess_unknown [OF r None k] ra cf ca hf ha hc show ?thesis
      by (auto simp: recency_inv_def split: if_splits)
  next
    case (Some e)
    note pos = lru_inv_pos [OF inv Some]
    have e1: "1 \<le> hit_count e" by (rule hc [OF Some])
    have others: "\<And>g e'. g \<noteq> f \<Longrightarrow> frame_entities s g = Some e' \<Longrightarrow> 1 \<le> hit_count e'"
      by (rule hc)
    show ?thesis
    proof (cases "hit_count e + 1 = lru_k s")
      case True
      then have lt: "hit_count e < lru_k s" by simp
      with pos have fh: "f \<in> set (hist_list s)" and fc: "f \<notin> set (cache_list s)" by simp_all
      have cf: "by_recency (tr @ [f]) (f # cache_list s)" using fc c by (simp add: by_recency_front)
      have "f \<notin> set (remove1 f (hist_list s))" using dist by simp
      then have hr: "lru_k s \<le> 2 \<Longrightarrow> by_recency (tr @ [f]) (remove1 f (hist_list s))"
        using h by (simp add: by_recency_append by_recency_remove1)
      from RecordAccess_known [OF inv r Some] ra True
      have s': "s' = s\<lparr>hist_list := remove1 f (hist_list s), cache_list := f # cache_list s,
          frame_entities := (frame_entities s)(f \<mapsto> e\<lparr>hit_count := hit_count e + 1, it := Cache_node\<rparr>)\<rparr>"
        by simp
      show ?thesis unfolding s' using cf hr hc by (auto simp: recency_inv_def)
    next
      case ne: False
      show ?thesis
      proof (cases "hit_count e + 1 > lru_k s")
        case True
        then have ge: "\<not> hit_count e < lru_k s" by simp
        with pos have fc: "f \<in> set (cache_list s)" and fh: "f \<notin> set (hist_list s)" by simp_all
        have "f \<notin> set (remove1 f (cache_list s))" using dist by simp
        then have cf: "by_recency (tr @ [f]) (f # remove1 f (cache_list s))"
          using c by (simp add: by_recency_front by_recency_remove1)
        have ha: "lru_k s \<le> 2 \<Longrightarrow> by_recency (tr @ [f]) (hist_list s)"
          using fh h by (simp add: by_recency_append)
        from RecordAccess_known [OF inv r Some] ra True ne
        have s': "s' = s\<lparr>cache_list := f # remove1 f (cache_list s),
          frame_entities := (frame_entities s)(f \<mapsto> e\<lparr>hit_count := hit_count e + 1, it := Cache_node\<rparr>)\<rparr>"
          by simp
        show ?thesis unfolding s' using cf ha hc by (auto simp: recency_inv_def)
      next
        case False
        with ne have lt: "hit_count e + 1 < lru_k s" by simp
        then have "hit_count e < lru_k s" by simp
        with pos have fc: "f \<notin> set (cache_list s)" by simp
        have k3: "\<not> lru_k s \<le> 2" using lt e1 by simp
        have ca: "by_recency (tr @ [f]) (cache_list s)" using fc c by (simp add: by_recency_append)
        from RecordAccess_known [OF inv r Some] ra ne False
        have s': "s' = s\<lparr>frame_entities :=
            (frame_entities s)(f \<mapsto> e\<lparr>hit_count := hit_count e + 1\<rparr>)\<rparr>"
          by simp
        show ?thesis unfolding s' using ca k3 hc by (auto simp: recency_inv_def)
      qed
    qed
  qed
qed

lemma recency_inv_SetEvictable:
  assumes "recency_inv tr s"
  shows "recency_inv tr (SetEvictable s f b)"
  using assms
  by (auto simp: recency_inv_def SetEvictable_def Let_def split: option.splits if_splits)

lemma recency_inv_erased:
  assumes "recency_inv tr s"
  shows "recency_inv tr (s\<lparr>hist_list := remove1 f (hist_list s),
                    frame_entities := (frame_entities s)(f := None), curr_size := c\<rparr>)"
    and "recency_inv tr (s\<lparr>cache_list := remove1 f (cache_list s),
                    frame_entities := (frame_entities s)(f := None), curr_size := c\<rparr>)"
  using assms by (auto simp: recency_inv_def by_recency_remove1)

lemma recency_inv_Evict:
  assumes inv: "lru_inv s" and rec: "recency_inv tr s" and ev: "Evict s out = Some (r, out', s')"
  shows "recency_inv tr s'"
  using ev rec recency_inv_erased [OF rec] unfolding Evict_cases [OF inv]
  by (auto split: if_splits option.splits)

lemma recency_inv_Remove:
  assumes inv: "lru_inv s" and rec: "recency_inv tr s" and rm: "Remove s f = Some s'"
  shows "recency_inv tr s'"
proof (cases "out_of_range s f \<or> frame_entities s f = None")
  case True
  then show ?thesis using rm rec by (auto simp: Remove_def split: if_splits)
next
  case False
  then obtain e where e: "frame_entities s f = Some e" and r: "\<not> out_of_range s f" by auto
  show ?thesis
  proof (cases "evictable e")
    case False
    then show ?thesis using rm rec e r by (simp add: Remove_def)
  next
    case True
    from Remove_known [OF inv r e True] rm recency_inv_erased [OF rec, where f = f and c = "curr_size s - 1"]
    show ?thesis by (auto split: if_splits)
  qed
qed

lemma accessed_recency_inv: "accessed tr s \<Longrightarrow> recency_inv tr s"
proof (induction rule: accessed.induct)
  case (accessed_new num_frames k)
  show ?case by (rule recency_inv_new)
next
  case (accessed_RecordAccess tr s frame_id s')
  from reachable_lru_inv [OF accessed_reachable [OF accessed_RecordAccess(1)]]
  show ?case
    by (rule recency_inv_RecordAccess [OF _ accessed_RecordAccess(4,2,3)])
next
  case (accessed_SetEvictable tr s frame_id set_evictable)
  then show ?case by (simp add: recency_inv_SetEvictable)
next
  case (accessed_Evict tr s out r out' s')
  from reachable_lru_inv [OF accessed_reachable [OF accessed_Evict(1)]]
  show ?case by (rule recency_inv_Evict [OF _ accessed_Evict(3,2)])
next
  case (accessed_Remove tr s frame_id s')
  from reachable_lru_inv [OF accessed_reachable [OF accessed_Remove(1)]]
  show ?case by (rule recency_inv_Remove [OF _ accessed_Remove(3,2)])
qed

subsection \<open>The scenario is reachable\<close>

lemma scenario_step1:
  "RecordAccess (LRUKReplacer_new 7 2) 1 = Some
     \<lparr>replacer_size = 7, lru_k = 2, curr_size = 1, hist_list = [1], cache_list = [],
      frame_entities = [1 \<mapsto> \<lparr>hit_count = 1, evictable = True, it = Hist_node\<rparr>]\<rparr>"
  by (simp add: RecordAccess_def LRUKReplacer_new_def out_of_range_def size_t_of_def
      add_new_def Let_def list_erase_def)

lemma scenario_step2:
  "RecordAccess
     \<lparr>replacer_size = 7, lru_k = 2, curr_size = 1, hist_list = [1], cache_list = [],
      frame_entities = [1 \<mapsto> \<lparr>hit_count = 1, evictable = True, it = Hist_node\<rparr>]\<rparr> 2 = Some
     \<lparr>replacer_size = 7, lru_k = 2, curr_size = 2, hist_list = [2, 1], cache_list = [],
      frame_entities = [1 \<mapsto> \<lparr>hit_count = 1, evictable = True, it = Hist_node\<rparr>,
                        2 \<mapsto> \<lparr>hit_count = 1, evictable = True, it = Hist_node\<rparr>]\<rparr>"
  by (simp add: RecordAccess_def out_of_range_def size_t_of_def add_new_def Let_def list_erase_def)

lemma scenario_step3:
  "RecordAccess
     \<lparr>replacer_size = 7, lru_k = 2, curr_size = 2, hist_list = [2, 1], cache_list = [],
      frame_entities = [1 \<mapsto> \<lparr>hit_count = 1, evictable = True, it = Hist_node\<rparr>,
                        2 \<mapsto> \<lparr>hit_count = 1, evictable = True, it = Hist_node\<rparr>]\<rparr> 3 = Some
     \<lparr>replacer_size = 7, lru_k = 2, curr_size = 3, hist_list = [3, 2, 1], cache_list = [],
      frame_entities = [1 \<mapsto> \<lparr>hit_count = 1, evictable = True, it = Hist_node\<rparr>,
                        2 \<mapsto> \<lparr>hit_count = 1, evictable = True, it = Hist_node\<rparr>,
                        3 \<mapsto> \<lparr>hit_count = 1, evictable = True, it = Hist_node\<rparr>]\<rparr>"
  by (simp add: RecordAccess_def out_of_range_def size_t_of_def add_new_def Let_def list_erase_def)

lemma scenario_step4:
  "RecordAccess
     \<lparr>replacer_size = 7, lru_k = 2, curr_size = 3, hist_list = [3, 2, 1], cache_list = [],
      frame_entities = [1 \<mapsto> \<lparr>hit_count = 1, evictable = True, it = Hist_node\<rparr>,
                        2 \<mapsto> \<lparr>hit_count = 1, evictable = True, it = Hist_node\<rparr>,
                        3 \<mapsto> \<lparr>hit_count = 1, evictable = True, it = Hist_node\<rparr>]\<rparr> 1 =
   Some scenario"
proof -
  have "[1 \<mapsto> \<lparr>hit_count = 1, evictable = True, it = Hist_node\<rparr>,
         2 \<mapsto> \<lparr>hit_count = 1, evictable = True, it = Hist_node\<rparr>,
         3 \<mapsto> \<lparr>hit_count = 1, evictable = True, it = Hist_node\<rparr>,
         1 \<mapsto> \<lparr>hit_count = Suc (Suc 0), evictable = True, it = Cache_node\<rparr>] =
        [1 \<mapsto> \<lparr>hit_count = Suc (Suc 0), evictable = True, it = Cache_node\<rparr>,
         2 \<mapsto> \<lparr>hit_count = 1, evictable = True, it = Hist_node\<rparr>,
         (3 :: frame_id_t) \<mapsto> \<lparr>hit_count = 1, evictable = True, it = Hist_node\<rparr>]"
    by (rule ext) simp
  then show ?thesis
    by (simp add: RecordAccess_def out_of_range_def size_t_of_def Let_def list_erase_def
        scenario_def numeral_2_eq_2)
qed

lemma reachable_scenario: "reachable scenario"
  by (rule reach_RecordAccess [OF reach_RecordAccess [OF reach_RecordAccess
        [OF reach_RecordAccess [OF reach_new scenario_step1] scenario_step2]
        scenario_step3] scenario_step4])

lemma accessed_scenario: "accessed [1, 2, 3, 1] scenario"
proof -
  have r: "\<not> out_of_range t f" if "replacer_size t = 7" "f \<in> {1, 2, 3}" for t f
    using that by (auto simp: out_of_range_def size_t_of_def)
  note a1 = accessed_RecordAccess [OF accessed_new _ scenario_step1]
  have "accessed ([] @ [1]) \<lparr>replacer_size = 7, lru_k = 2, curr_size = 1, hist_list = [1], cache_list = [],
      frame_entities = [1 \<mapsto> \<lparr>hit_count = 1, evictable = True, it = Hist_node\<rparr>]\<rparr>"
    by (rule a1) (simp add: r LRUKReplacer_new_def)
  from accessed_RecordAccess [OF this _ scenario_step2]
  have "accessed (([] @ [1]) @ [2]) \<lparr>replacer_size = 7, lru_k = 2, curr_size = 2, hist_list = [2, 1], cache_list = [],
      frame_entities = [1 \<mapsto> \<lparr>hit_count = 1, evictable = True, it = Hist_node\<rparr>,
                        2 \<mapsto> \<lparr>hit_count = 1, evictable = True, it = Hist_node\<rparr>]\<rparr>"
    by (simp add: r)
  from accessed_RecordAccess [OF this _ scenario_step3]
  have "accessed ((([] @ [1]) @ [2]) @ [3]) \<lparr>replacer_size = 7, lru_k = 2, curr_size = 3, hist_list = [3, 2, 1], cache_list = [],
      frame_entities = [1 \<mapsto> \<lparr>hit_count = 1, evictable = True, it = Hist_node\<rparr>,
                        2 \<mapsto> \<lparr>hit_count = 1, evictable = True, it = Hist_node\<rparr>,
                        3 \<mapsto> \<lparr>hit_count = 1, evictable = True, it = Hist_node\<rparr>]\<rparr>"
    by (simp add: r)
  from accessed_RecordAccess [OF this _ scenario_step4]
  have "accessed (((([] @ [1]) @ [2]) @ [3]) @ [1]) scenario" by (simp add: r)
  then show ?thesis by simp
qed

subsection \<open>Evict\<close>

lemma revisited_run: "RecordAccess_all (LRUKReplacer_new 7 3) [1, 2, 1] = Some revisited"
proof -
  have m: "[1 \<mapsto> \<lparr>hit_count = Suc 0, evictable = True, it = Hist_node\<rparr>,
         2 \<mapsto> \<lparr>hit_count = Suc 0, evictable = True, it = Hist_node\<rparr>,
         1 \<mapsto> \<lparr>hit_count = Suc (Suc 0), evictable = True, it = Hist_node\<rparr>] =
        [1 \<mapsto> \<lparr>hit_count = 2, evictable = True, it = Hist_node\<rparr>,
         (2 :: frame_id_t) \<mapsto> \<lparr>hit_count = Suc 0, evictable = True, it = Hist_node\<rparr>]"
    by (rule ext) simp
  show ?thesis
    by (simp add: RecordAccess_def LRUKReplacer_new_def out_of_range_def size_t_of_def
        add_new_def Let_def list_erase_def revisited_def m)
qed

text \<open>
  Claim C1, as stated, fails for \<open>k = 3\<close>: after the accesses 1, 2, 1 frame 1 is still at
  the tail of the history sequence (an access that leaves the count below \<open>k\<close> does not
  move the frame), so \<open>Evict\<close> returns frame 1 although frame 2 was accessed less recently.
\<close>

theorem Evict_recency_counterexample:
  "RecordAccess_all (LRUKReplacer_new 7 3) [1, 2, 1] = Some revisited
   \<and> 2 \<in> tracked_evictable revisited
   \<and> last_access [1, 2, 1] 2 < last_access [1, 2, 1] 1
   \<and> Evict revisited 0 = Some (True, 1,
         revisited\<lparr>hist_list := [2], frame_entities := (frame_entities revisited)(1 := None),
           curr_size := 1\<rparr>)"
proof -
  have "2 \<in> tracked_evictable revisited" by (simp add: tracked_evictable_def revisited_def)
  moreover have "last_access [1, 2, 1] 2 < last_access [1, 2, 1] 1" by (simp add: last_access_def)
  moreover have "Evict revisited 0 = Some (True, 1,
         revisited\<lparr>hist_list := [2], frame_entities := (frame_entities revisited)(1 := None),
           curr_size := 1\<rparr>)"
    by (simp add: Evict_def revisited_def list_erase_def)
  ultimately show ?thesis using revisited_run by simp
qed

text \<open>
  Claim C1, amended. In every reachable state, \<open>Evict\<close> reports not-found (and changes
  nothing) when \<open>curr_size\<close> is 0. Otherwise it succeeds: it removes and returns the
  evictable frame nearest to the tail of the history sequence (the first one a scan from
  the tail to the head meets), and only when the history sequence holds no evictable frame
  the evictable frame nearest to the tail of the cached sequence; \<open>curr_size\<close> drops by
  one. The frame returned is always evictable, and whenever some evictable frame has fewer
  than \<open>k\<close> accesses, the frame returned has fewer than \<open>k\<close> accesses. Every reachable
  state has a run of accesses behind it, and for each such run: a frame returned from the
  cached sequence is, for every \<open>k\<close>, the least recently accessed evictable frame of that
  sequence, and a frame returned from the history sequence is the least recently accessed
  evictable frame of that sequence when \<open>k \<le> 2\<close>.
\<close>

theorem Evict_selects_victim:
  assumes "reachable s"
  shows "Evict s out =
      (if curr_size s = 0 then Some (False, out, s)
       else case lru_victim (frame_entities s) (hist_list s) of
         Some f \<Rightarrow> Some (True, f,
            s\<lparr>hist_list := remove1 f (hist_list s),
              frame_entities := (frame_entities s)(f := None),
              curr_size := curr_size s - 1\<rparr>)
       | None \<Rightarrow>
          (case lru_victim (frame_entities s) (cache_list s) of
             Some f \<Rightarrow> Some (True, f,
                s\<lparr>cache_list := remove1 f (cache_list s),
                  frame_entities := (frame_entities s)(f := None),
                  curr_size := curr_size s - 1\<rparr>)
           | None \<Rightarrow> Some (False, out, s)))
    \<and> (curr_size s \<noteq> 0 \<longrightarrow> (\<exists>f s'. Evict s out = Some (True, f, s') \<and> Size s' = Size s - 1))
    \<and> (\<forall>f s'. Evict s out = Some (True, f, s') \<longrightarrow>
          f \<in> tracked_evictable s \<and>
          ((\<exists>g e. frame_entities s g = Some e \<and> evictable e \<and> hit_count e < lru_k s) \<longrightarrow>
           (\<exists>e. frame_entities s f = Some e \<and> hit_count e < lru_k s)))
    \<and> (\<exists>tr. accessed tr s)
    \<and> (\<forall>tr f s'. accessed tr s \<and> Evict s out = Some (True, f, s') \<longrightarrow>
          (f \<in> set (cache_list s) \<longrightarrow>
             (\<forall>g\<in>set (cache_list s). g \<in> tracked_evictable s \<and> g \<noteq> f \<longrightarrow>
                last_access tr f < last_access tr g)) \<and>
          (f \<in> set (hist_list s) \<and> lru_k s \<le> 2 \<longrightarrow>
             (\<forall>g\<in>set (hist_list s). g \<in> tracked_evictable s \<and> g \<noteq> f \<longrightarrow>
                last_access tr f < last_access tr g)))"
proof -
  note inv = reachable_lru_inv [OF assms]
  note eq = Evict_cases [OF inv, of out]
  have p2: "\<exists>f s'. Evict s out = Some (True, f, s') \<and> Size s' = Size s - 1" if nz: "curr_size s \<noteq> 0"
  proof (cases "lru_victim (frame_entities s) (hist_list s)")
    case (Some f)
    with eq nz show ?thesis by (simp add: Size_def unat_minus_one)
  next
    case None
    from lru_inv_some_victim [OF inv nz None]
    obtain f where "lru_victim (frame_entities s) (cache_list s) = Some f" by blast
    with eq nz None show ?thesis by (simp add: Size_def unat_minus_one)
  qed
  have p3: "f \<in> tracked_evictable s \<and>
          ((\<exists>g e. frame_entities s g = Some e \<and> evictable e \<and> hit_count e < lru_k s) \<longrightarrow>
           (\<exists>e. frame_entities s f = Some e \<and> hit_count e < lru_k s))"
    if ev: "Evict s out = Some (True, f, s')" for f s'
  proof (cases "lru_victim (frame_entities s) (hist_list s)")
    case (Some g)
    with eq ev have "g = f" by (simp split: if_splits)
    with Some hist_victim_under_k [OF inv, of f] show ?thesis
      by (auto simp: tracked_evictable_def)
  next
    case None
    with eq ev have c: "lru_victim (frame_entities s) (cache_list s) = Some f"
      by (simp split: if_splits option.splits)
    from lru_victim_Some [OF c] have "f \<in> tracked_evictable s"
      by (simp add: tracked_evictable_eq)
    moreover have "\<not> (\<exists>g e. frame_entities s g = Some e \<and> evictable e \<and> hit_count e < lru_k s)"
      using under_k_in_hist [OF inv] None by blast
    ultimately show ?thesis by blast
  qed
  have p4: "\<exists>tr. accessed tr s" by (rule reachable_accessed [OF assms])
  have p5: "(f \<in> set (cache_list s) \<longrightarrow>
             (\<forall>g\<in>set (cache_list s). g \<in> tracked_evictable s \<and> g \<noteq> f \<longrightarrow>
                last_access tr f < last_access tr g)) \<and>
          (f \<in> set (hist_list s) \<and> lru_k s \<le> 2 \<longrightarrow>
             (\<forall>g\<in>set (hist_list s). g \<in> tracked_evictable s \<and> g \<noteq> f \<longrightarrow>
                last_access tr f < last_access tr g))"
    if acc: "accessed tr s" and ev: "Evict s out = Some (True, f, s')" for tr f s'
  proof -
    from accessed_recency_inv [OF acc]
    have c: "by_recency tr (cache_list s)" and h: "lru_k s \<le> 2 \<Longrightarrow> by_recency tr (hist_list s)"
      by (simp_all add: recency_inv_def)
    have disj: "set (hist_list s) \<inter> set (cache_list s) = {}" using inv by (simp add: lru_inv_def)
    show ?thesis
    proof (cases "lru_victim (frame_entities s) (hist_list s)")
      case (Some g)
      with eq ev have "g = f" by (simp split: if_splits)
      with Some have v: "lru_victim (frame_entities s) (hist_list s) = Some f" by simp
      from lru_victim_Some [OF v] disj have nc: "f \<notin> set (cache_list s)" by auto
      have "last_access tr f < last_access tr g'"
        if "lru_k s \<le> 2" "g' \<in> set (hist_list s)" "g' \<in> tracked_evictable s" "g' \<noteq> f" for g'
        using by_recency_victim [OF h [OF that(1)] v that(2) _ that(4)] that(3)
        by (simp add: tracked_evictable_eq)
      with nc show ?thesis by simp
    next
      case None
      with eq ev have v: "lru_victim (frame_entities s) (cache_list s) = Some f"
        by (simp split: if_splits option.splits)
      from lru_victim_Some [OF v] disj have nh: "f \<notin> set (hist_list s)" by auto
      have "last_access tr f < last_access tr g'"
        if "g' \<in> set (cache_list s)" "g' \<in> tracked_evictable s" "g' \<noteq> f" for g'
        using by_recency_victim [OF c v that(1) _ that(3)] that(2)
        by (simp add: tracked_evictable_eq)
      with nh show ?thesis by simp
    qed
  qed
  from eq p2 p3 have old: "Evict s out =
      (if curr_size s = 0 then Some (False, out, s)
       else case lru_victim (frame_entities s) (hist_list s) of
         Some f \<Rightarrow> Some (True, f,
            s\<lparr>hist_list := remove1 f (hist_list s),
              frame_entities := (frame_entities s)(f := None),
              curr_size := curr_size s - 1\<rparr>)
       | None \<Rightarrow>
          (case lru_victim (frame_entities s) (cache_list s) of
             Some f \<Rightarrow> Some (True, f,
                s\<lparr>cache_list := remove1 f (cache_list s),
                  frame_entities := (frame_entities s)(f := None),
                  curr_size := curr_size s - 1\<rparr>)
           | None \<Rightarrow> Some (False, out, s)))
    \<and> (curr_size s \<noteq> 0 \<longrightarrow> (\<exists>f s'. Evict s out = Some (True, f, s') \<and> Size s' = Size s - 1))
    \<and> (\<forall>f s'. Evict s out = Some (True, f, s') \<longrightarrow>
          f \<in> tracked_evictable s \<and>
          ((\<exists>g e. frame_entities s g = Some e \<and> evictable e \<and> hit_count e < lru_k s) \<longrightarrow>
           (\<exists>e. frame_entities s f = Some e \<and> hit_count e < lru_k s)))"
    by blast
  have new: "\<forall>tr f s'. accessed tr s \<and> Evict s out = Some (True, f, s') \<longrightarrow>
          (f \<in> set (cache_list s) \<longrightarrow>
             (\<forall>g\<in>set (cache_list s). g \<in> tracked_evictable s \<and> g \<noteq> f \<longrightarrow>
                last_access tr f < last_access tr g)) \<and>
          (f \<in> set (hist_list s) \<and> lru_k s \<le> 2 \<longrightarrow>
             (\<forall>g\<in>set (hist_list s). g \<in> tracked_evictable s \<and> g \<noteq> f \<longrightarrow>
                last_access tr f < last_access tr g))"
    using p5 by (intro allI impI) (elim conjE)
  from old p4 new show ?thesis by (intro conjI) (elim conjE, assumption)+
qed

theorem Evict_selects_victim_witness:
  "reachable scenario \<and> accessed [1, 2, 3, 1] scenario \<and>
   Evict scenario 0 = Some (True, 2,
     scenario\<lparr>hist_list := [3], frame_entities := (frame_entities scenario)(2 := None),
       curr_size := 2\<rparr>)
   \<and> last_access [1, 2, 3, 1] 2 < last_access [1, 2, 3, 1] 3"
proof -
  note inst = Evict_selects_victim [OF reachable_scenario, of 0]
  have ev: "Evict scenario 0 = Some (True, 2,
     scenario\<lparr>hist_list := [3], frame_entities := (frame_entities scenario)(2 := None),
       curr_size := 2\<rparr>)"
    using inst by (simp add: scenario_def lru_victim_def is_evictable_def)
  from inst have "\<forall>tr f s'. accessed tr scenario \<and> Evict scenario 0 = Some (True, f, s') \<longrightarrow>
          (f \<in> set (cache_list scenario) \<longrightarrow>
             (\<forall>g\<in>set (cache_list scenario). g \<in> tracked_evictable scenario \<and> g \<noteq> f \<longrightarrow>
                last_access tr f < last_access tr g)) \<and>
          (f \<in> set (hist_list scenario) \<and> lru_k scenario \<le> 2 \<longrightarrow>
             (\<forall>g\<in>set (hist_list scenario). g \<in> tracked_evictable scenario \<and> g \<noteq> f \<longrightarrow>
                last_access tr f < last_access tr g))"
    by (elim conjE)
  with accessed_scenario ev
  have "(2 \<in> set (hist_list scenario) \<and> lru_k scenario \<le> 2 \<longrightarrow>
             (\<forall>g\<in>set (hist_list scenario). g \<in> tracked_evictable scenario \<and> g \<noteq> 2 \<longrightarrow>
                last_access [1, 2, 3, 1] 2 < last_access [1, 2, 3, 1] g))"
    by (simp del: set_simps)
  moreover have "3 \<in> tracked_evictable scenario"
    by (simp add: tracked_evictable_def scenario_def)
  ultimately have "last_access [1, 2, 3, 1] 2 < last_access [1, 2, 3, 1] 3"
    by (simp add: scenario_def)
  with ev reachable_scenario accessed_scenario show ?thesis by simp
qed

subsection \<open>Size and SetEvictable\<close>

lemma size_t_of_cases:
  "size_t_of f = (if sint f < 0 then nat (2 ^ 64 + sint f) else nat (sint f))"
proof -
  have lo: "- (2 ^ 31) \<le> sint f" using sint_ge [of f] by simp
  have hi: "sint f < 2 ^ 31" using sint_lt [of f] by simp
  show ?thesis
  proof (cases "sint f < 0")
    case True
    have "sint f mod 2 ^ 64 = (sint f + 2 ^ 64) mod 2 ^ 64" by simp
    also have "\<dots> = sint f + 2 ^ 64"
      using lo True by (intro mod_pos_pos_trivial) simp_all
    finally have "sint f mod 2 ^ 64 = 2 ^ 64 + sint f" by simp
    with True show ?thesis by (simp add: size_t_of_def)
  next
    case False
    then have "sint f mod 2 ^ 64 = sint f" using hi by simp
    with False show ?thesis by (simp add: size_t_of_def)
  qed
qed

lemma out_of_range_cases:
  assumes "replacer_size s < 2 ^ 63"
  shows "out_of_range s f = (sint f < 0 \<or> int (replacer_size s) < sint f)"
proof -
  have lo: "- (2 ^ 31) \<le> sint f" using sint_ge [of f] by simp
  show ?thesis using assms lo
    by (auto simp: out_of_range_def size_t_of_cases)
qed

lemma boundary_step: "RecordAccess (LRUKReplacer_new 7 2) 7 = Some boundary"
  by (simp add: RecordAccess_def LRUKReplacer_new_def out_of_range_def size_t_of_def
      add_new_def Let_def list_erase_def boundary_def)

text \<open>
  Claim C4, as stated, fails at the identifier equal to the capacity: it lies outside
  \<open>[0, replacer_size)\<close>, yet once \<open>RecordAccess\<close> has registered it, \<open>SetEvictable\<close>
  changes its flag and \<open>Size\<close> goes from 1 to 0.
\<close>

theorem SetEvictable_boundary_counterexample:
  "reachable boundary
   \<and> \<not> (0 \<le> sint (7 :: frame_id_t) \<and> sint (7 :: frame_id_t) < int (replacer_size boundary))
   \<and> Size boundary = 1
   \<and> Size (SetEvictable boundary 7 False) = 0
   \<and> SetEvictable boundary 7 False \<noteq> boundary"
proof -
  have r: "reachable boundary" by (rule reach_RecordAccess [OF reach_new boundary_step])
  have "SetEvictable boundary 7 False =
      boundary\<lparr>curr_size := 0,
        frame_entities := [7 \<mapsto> \<lparr>hit_count = 1, evictable = False, it = Hist_node\<rparr>]\<rparr>"
    by (simp add: SetEvictable_def out_of_range_def size_t_of_def boundary_def)
  then show ?thesis using r by (simp add: Size_def boundary_def)
qed

text \<open>
  Claim C4, amended. In every reachable state \<open>Size\<close> is the number of tracked frames whose
  evictable flag is set. \<open>SetEvictable\<close> never touches the two sequences; it changes
  nothing for a frame that is unknown or that the bound check rejects; for a known frame
  that the check accepts it stores the flag, and \<open>Size\<close> goes down by one exactly on a
  change from evictable to not evictable, up by one on the opposite change, and stays
  otherwise. For a capacity below \<open>2^63\<close> the check rejects the negative identifiers and
  those strictly greater than the capacity; the identifier equal to the capacity is accepted.
\<close>

theorem Size_counts_evictable:
  assumes "reachable s"
  shows "Size s = card (tracked_evictable s)
    \<and> hist_list (SetEvictable s f b) = hist_list s
    \<and> cache_list (SetEvictable s f b) = cache_list s
    \<and> (out_of_range s f \<or> frame_entities s f = None \<longrightarrow> SetEvictable s f b = s)
    \<and> (\<forall>e. \<not> out_of_range s f \<and> frame_entities s f = Some e \<longrightarrow>
          frame_entities (SetEvictable s f b) = (frame_entities s)(f \<mapsto> e\<lparr>evictable := b\<rparr>) \<and>
          (evictable e \<and> \<not> b \<longrightarrow> 0 < Size s \<and> Size (SetEvictable s f b) = Size s - 1) \<and>
          (\<not> evictable e \<and> b \<longrightarrow> Size (SetEvictable s f b) = Size s + 1) \<and>
          (evictable e = b \<longrightarrow> Size (SetEvictable s f b) = Size s))
    \<and> (replacer_size s < 2 ^ 63 \<longrightarrow>
          out_of_range s f = (sint f < 0 \<or> int (replacer_size s) < sint f))"
proof -
  note inv = reachable_lru_inv [OF assms]
  have sz: "Size t = card (tracked_evictable t)" if "lru_inv t" for t
    using that by (simp add: Size_def lru_inv_def tracked_evictable_eq)
  have lists: "hist_list (SetEvictable s f b) = hist_list s \<and>
      cache_list (SetEvictable s f b) = cache_list s"
    by (simp add: SetEvictable_def Let_def split: option.splits)
  have noop: "out_of_range s f \<or> frame_entities s f = None \<longrightarrow> SetEvictable s f b = s"
    by (auto simp: SetEvictable_def)
  have known: "frame_entities (SetEvictable s f b) = (frame_entities s)(f \<mapsto> e\<lparr>evictable := b\<rparr>) \<and>
          (evictable e \<and> \<not> b \<longrightarrow> 0 < Size s \<and> Size (SetEvictable s f b) = Size s - 1) \<and>
          (\<not> evictable e \<and> b \<longrightarrow> Size (SetEvictable s f b) = Size s + 1) \<and>
          (evictable e = b \<longrightarrow> Size (SetEvictable s f b) = Size s)"
    if r: "\<not> out_of_range s f" and e: "frame_entities s f = Some e" for e
  proof -
    let ?s' = "SetEvictable s f b"
    have ents: "frame_entities ?s' = (frame_entities s)(f \<mapsto> e\<lparr>evictable := b\<rparr>)"
      using r e by (simp add: SetEvictable_def Let_def)
    have inv': "lru_inv ?s'" by (rule lru_inv_SetEvictable [OF inv])
    let ?A = "{g. is_evictable (frame_entities s) g}"
    have A': "tracked_evictable ?s' = (if b then insert f ?A else ?A - {f})"
      by (simp add: tracked_evictable_eq ents evictable_set_upd)
    have A: "tracked_evictable s = ?A" by (rule tracked_evictable_eq)
    have mem: "f \<in> ?A \<longleftrightarrow> evictable e" using e by (simp add: evictable_known)
    have "evictable e \<and> \<not> b \<longrightarrow> 0 < Size s \<and> Size ?s' = Size s - 1"
      using sz [OF inv] sz [OF inv'] A A' mem by (auto simp: card_gt_0_iff)
    moreover have "\<not> evictable e \<and> b \<longrightarrow> Size ?s' = Size s + 1"
      using sz [OF inv] sz [OF inv'] A A' mem by auto
    moreover have "evictable e = b \<longrightarrow> Size ?s' = Size s"
      using sz [OF inv] sz [OF inv'] A A' mem by (auto simp: insert_absorb)
    ultimately show ?thesis using ents by blast
  qed
  have known': "\<forall>e. \<not> out_of_range s f \<and> frame_entities s f = Some e \<longrightarrow>
          frame_entities (SetEvictable s f b) = (frame_entities s)(f \<mapsto> e\<lparr>evictable := b\<rparr>) \<and>
          (evictable e \<and> \<not> b \<longrightarrow> 0 < Size s \<and> Size (SetEvictable s f b) = Size s - 1) \<and>
          (\<not> evictable e \<and> b \<longrightarrow> Size (SetEvictable s f b) = Size s + 1) \<and>
          (evictable e = b \<longrightarrow> Size (SetEvictable s f b) = Size s)"
    by (intro allI impI, elim conjE) (rule known)
  have bound: "replacer_size s < 2 ^ 63 \<longrightarrow>
          out_of_range s f = (sint f < 0 \<or> int (replacer_size s) < sint f)"
    by (rule impI) (rule out_of_range_cases)
  show ?thesis
    by (intro conjI sz [OF inv] lists [THEN conjunct1] lists [THEN conjunct2] noop known' bound)
qed

theorem Size_counts_evictable_witness:
  "reachable scenario \<and> Size scenario = card (tracked_evictable scenario)
    \<and> Size (SetEvictable scenario 2 False) = 2
    \<and> SetEvictable scenario 5 False = scenario
    \<and> out_of_range scenario 8 \<and> SetEvictable scenario 8 False = scenario"
proof -
  note i2 = Size_counts_evictable [OF reachable_scenario, of 2 False]
  note i5 = Size_counts_evictable [OF reachable_scenario, of 5 False]
  note i8 = Size_counts_evictable [OF reachable_scenario, of 8 False]
  have r8: "out_of_range scenario 8" using i8 by (simp add: scenario_def)
  with i8 have "SetEvictable scenario 8 False = scenario" by simp
  with r8 i2 i5 reachable_scenario show ?thesis
    by (simp add: scenario_def out_of_range_def size_t_of_def Size_def)
qed

subsection \<open>The bound check\<close>

text \<open>
  Claim C5, as stated, fails at the identifier equal to the capacity: it lies outside
  \<open>[0, replacer_size)\<close>, yet \<open>RecordAccess\<close> registers it.
\<close>

theorem RecordAccess_boundary_counterexample:
  "\<not> (0 \<le> sint (7 :: frame_id_t) \<and> sint (7 :: frame_id_t) < int (replacer_size (LRUKReplacer_new 7 2)))
   \<and> RecordAccess (LRUKReplacer_new 7 2) 7 \<noteq> Some (LRUKReplacer_new 7 2)"
  by (simp add: RecordAccess_def LRUKReplacer_new_def out_of_range_def size_t_of_def
      add_new_def Let_def list_erase_def)

text \<open>
  Claim C5, amended. The check is \<open>static_cast<size_t>(frame_id) > replacer_size_\<close>.
  Every identifier it rejects leaves the state as it was, under \<open>RecordAccess\<close>,
  \<open>SetEvictable\<close> and \<open>Remove\<close>; for a capacity below \<open>2^63\<close> these are the negative
  identifiers and those strictly greater than the capacity.
\<close>

theorem out_of_range_is_noop:
  "(out_of_range s f \<longrightarrow>
      RecordAccess s f = Some s \<and> SetEvictable s f b = s \<and> Remove s f = Some s)
   \<and> (replacer_size s < 2 ^ 63 \<longrightarrow>
        out_of_range s f = (sint f < 0 \<or> int (replacer_size s) < sint f))"
proof -
  have "out_of_range s f = (sint f < 0 \<or> int (replacer_size s) < sint f)"
    if "replacer_size s < 2 ^ 63"
  proof -
    have lo: "- (2 ^ 31) \<le> sint f" using sint_ge [of f] by simp
    show ?thesis using that lo
      by (auto simp: out_of_range_def size_t_of_cases)
  qed
  then show ?thesis
    by (simp add: RecordAccess_def SetEvictable_def Remove_def)
qed

theorem out_of_range_is_noop_witness:
  "out_of_range (LRUKReplacer_new 7 2) 8
   \<and> RecordAccess (LRUKReplacer_new 7 2) 8 = Some (LRUKReplacer_new 7 2)
   \<and> out_of_range scenario (- 1) \<and> Remove scenario (- 1) = Some scenario"
  using out_of_range_is_noop [of "LRUKReplacer_new 7 2" 8 True]
    out_of_range_is_noop [of scenario "- 1" True]
  by (simp add: LRUKReplacer_new_def scenario_def)

lemma lru_inv_add_new:
  assumes "lru_inv s" "frame_entities s f = None" "1 \<le> lru_k s"
  shows "lru_inv (add_new s f)"
proof -
  note nt = lru_inv_tracked [OF assms(1,2)]
  have c: "unat (curr_size s + 1) = Suc (card {g. is_evictable (frame_entities s) g})"
    using assms(1) by (intro unat_succ_card) (simp add: lru_inv_def)
  have nin: "f \<notin> {g. is_evictable (frame_entities s) g}"
    using assms(2) by (simp add: evictable_unknown)
  show ?thesis
    using assms nt c nin unfolding lru_inv_def add_new_def
    by (auto simp: evictable_set_upd)
qed

lemma RecordAccess_add_new:
  "\<not> out_of_range s f \<Longrightarrow> frame_entities s f = None \<Longrightarrow>
     RecordAccess s f = RecordAccess (add_new s f) f"
  by (simp add: RecordAccess_def out_of_range_def add_new_def)

lemma in_range_accepted:
  "0 \<le> sint f \<Longrightarrow> sint f < int (replacer_size s) \<Longrightarrow> \<not> out_of_range s f"
  by (simp add: out_of_range_def size_t_of_cases)

subsection \<open>RecordAccess\<close>

text \<open>
  Claim C6. For a reachable tracker with \<open>k \<ge> 1\<close> and an identifier in
  \<open>[0, replacer_size)\<close>: an unknown frame first gets an entity with counter 0 and the
  evictable flag set, at the front of the history sequence (state \<open>s1\<close>). The counter
  then goes up by exactly one. If it reaches \<open>k\<close> the frame leaves the history sequence
  and goes to the front of the cached sequence; if it exceeds \<open>k\<close> the frame is moved to
  the front of the cached sequence again; otherwise no sequence changes.
\<close>

theorem RecordAccess_counts_and_moves:
  assumes "reachable s" "1 \<le> lru_k s" "0 \<le> sint f" "sint f < int (replacer_size s)"
    and s1: "s1 = (if frame_entities s f = None then add_new s f else s)"
  shows "\<exists>e. frame_entities s1 f = Some e
    \<and> (frame_entities s f = None \<longrightarrow>
         e = \<lparr>hit_count = 0, evictable = True, it = Hist_node\<rparr> \<and> hist_list s1 = f # hist_list s
         \<and> cache_list s1 = cache_list s)
    \<and> RecordAccess s f = Some
        (if hit_count e + 1 = lru_k s then
           s1\<lparr>hist_list := remove1 f (hist_list s1), cache_list := f # cache_list s1,
             frame_entities := (frame_entities s1)
               (f \<mapsto> e\<lparr>hit_count := hit_count e + 1, it := Cache_node\<rparr>)\<rparr>
         else if hit_count e + 1 > lru_k s then
           s1\<lparr>cache_list := f # remove1 f (cache_list s1),
             frame_entities := (frame_entities s1)
               (f \<mapsto> e\<lparr>hit_count := hit_count e + 1, it := Cache_node\<rparr>)\<rparr>
         else s1\<lparr>frame_entities := (frame_entities s1)
               (f \<mapsto> e\<lparr>hit_count := hit_count e + 1\<rparr>)\<rparr>)"
proof -
  note inv = reachable_lru_inv [OF assms(1)]
  have r: "\<not> out_of_range s f" by (rule in_range_accepted [OF assms(3,4)])
  show ?thesis
  proof (cases "frame_entities s f")
    case None
    then have s1': "s1 = add_new s f" using s1 by simp
    have inv1: "lru_inv s1" unfolding s1' by (rule lru_inv_add_new [OF inv None assms(2)])
    have r1: "\<not> out_of_range s1 f" using r by (simp add: s1' out_of_range_def add_new_def)
    have e: "frame_entities s1 f = Some \<lparr>hit_count = 0, evictable = True, it = Hist_node\<rparr>"
      by (simp add: s1' add_new_def)
    have k: "lru_k s1 = lru_k s" by (simp add: s1' add_new_def)
    have "RecordAccess s f = RecordAccess s1 f"
      unfolding s1' by (rule RecordAccess_add_new [OF r None])
    with RecordAccess_known [OF inv1 r1 e] e None k show ?thesis
      by (simp add: s1' add_new_def)
  next
    case (Some e)
    then have "s1 = s" using s1 by simp
    with RecordAccess_known [OF inv r Some] Some show ?thesis by simp
  qed
qed

theorem RecordAccess_counts_and_moves_witness:
  "reachable scenario \<and> 1 \<le> lru_k scenario \<and> 0 \<le> sint (2 :: frame_id_t)
   \<and> sint (2 :: frame_id_t) < int (replacer_size scenario)
   \<and> RecordAccess scenario 2 = Some
       (scenario\<lparr>hist_list := [3], cache_list := [2, 1],
          frame_entities := (frame_entities scenario)
            (2 \<mapsto> \<lparr>hit_count = 2, evictable = True, it = Cache_node\<rparr>)\<rparr>)"
  using RecordAccess_counts_and_moves [OF reachable_scenario, of 2 scenario] reachable_scenario
  by (simp add: scenario_def numeral_2_eq_2)

subsection \<open>The output parameter of Evict\<close>

text \<open>
  Claim C10. Whenever \<open>Evict\<close> reports not-found, the caller's variable holds the value
  it held before the call.
\<close>

theorem Evict_not_found_keeps_out:
  "Evict s out = Some (False, out', s') \<Longrightarrow> out' = out"
  by (auto simp: Evict_def split: if_splits scan_result.splits option.splits)

theorem Evict_not_found_keeps_out_witness:
  "\<exists>out' s'. Evict (LRUKReplacer_new 7 2) 5 = Some (False, out', s') \<and> out' = 5"
proof -
  have "\<exists>out' s'. Evict (LRUKReplacer_new 7 2) 5 = Some (False, out', s')"
    by (simp add: Evict_def LRUKReplacer_new_def)
  then obtain out' s' where h: "Evict (LRUKReplacer_new 7 2) 5 = Some (False, out', s')"
    by blast
  from Evict_not_found_keeps_out [OF h] have "out' = 5" .
  with h show ?thesis by blast
qed

section \<open>Properties of the extendible hash table\<close>

subsection \<open>Masks, termination and the invariant\<close>

lemma low_mask_and: "low_mask d = Some m \<Longrightarrow> x AND m = x mod 2 ^ d"
proof -
  assume "low_mask d = Some m"
  then have "m = mask d" by (auto simp: low_mask_def mask_eq_exp_minus_1 split: if_splits)
  then show ?thesis by (simp add: take_bit_eq_mod flip: take_bit_eq_mask)
qed

lemma low_mask_SomeD: "low_mask d = Some m \<Longrightarrow> d < 31"
  by (simp add: low_mask_def split: if_splits)

lemma low_mask_Some: "d < 31 \<Longrightarrow> low_mask d = Some (2 ^ d - 1)"
  by (simp add: low_mask_def)

lemma IndexOf_Some: "IndexOf h t key = Some idx \<Longrightarrow> idx = h key mod 2 ^ global_depth t \<and> global_depth t < 31"
  by (auto simp: IndexOf_def low_mask_and low_mask_SomeD split: option.splits)

lemma IndexOf_eq: "global_depth t < 31 \<Longrightarrow> IndexOf h t key = Some (h key mod 2 ^ global_depth t)"
  by (simp add: IndexOf_def low_mask_Some low_mask_and)

lemma mod_mod_pow2: "d \<le> g \<Longrightarrow> (x mod 2 ^ g) mod 2 ^ d = (x :: nat) mod 2 ^ d"
  by (simp add: mod_mod_cancel le_imp_power_dvd)

lemma repoint_length [simp]: "length (repoint d bm sm li a1 a2) = length d"
  by (simp add: repoint_def)

lemma repoint_nth:
  "i < length d \<Longrightarrow> repoint d bm sm li a1 a2 ! i =
     (if i AND bm = li then (if i AND sm = li then a1 else a2) else d ! i)"
  by (simp add: repoint_def)

lemma split_bucket_SomeD:
  assumes "split_bucket h t idx bucket = Some t'"
  obtains bm sm items1 items2 where
    "low_mask (b_depth bucket) = Some bm" "low_mask (b_depth bucket + 1) = Some sm"
    "redistribute h (grow t bucket) sm (idx AND bm) (b_list bucket) = Some (items1, items2)"
    "t' = (grow t bucket)\<lparr>heap := heap (grow t bucket) @
              [(Bucket_new (bucket_size (grow t bucket)) (b_depth bucket + 1))\<lparr>b_list := items1\<rparr>,
               (Bucket_new (bucket_size (grow t bucket)) (b_depth bucket + 1))\<lparr>b_list := items2\<rparr>],
            dir := repoint (dir (grow t bucket)) bm sm (idx AND bm)
                     (length (heap (grow t bucket))) (length (heap (grow t bucket)) + 1),
            num_buckets := num_buckets (grow t bucket) + 1\<rparr>"
  using assms
  by (auto simp: split_bucket_def split_core_def Let_def split: option.splits)

lemma split_target_depth:
  assumes "IndexOf h t key = Some idx" "dir_at t idx = Some (a, bucket)"
    "split_bucket h t idx bucket = Some t'"
  shows "b_depth bucket + 1 < 31 \<and>
     (target_depth h t' key = None \<or> target_depth h t' key = Some (b_depth bucket + 1))"
proof -
  from assms(3) obtain bm sm items1 items2 where
    bm: "low_mask (b_depth bucket) = Some bm" and sm: "low_mask (b_depth bucket + 1) = Some sm"
    and t': "t' = (grow t bucket)\<lparr>heap := heap (grow t bucket) @
              [(Bucket_new (bucket_size (grow t bucket)) (b_depth bucket + 1))\<lparr>b_list := items1\<rparr>,
               (Bucket_new (bucket_size (grow t bucket)) (b_depth bucket + 1))\<lparr>b_list := items2\<rparr>],
            dir := repoint (dir (grow t bucket)) bm sm (idx AND bm)
                     (length (heap (grow t bucket))) (length (heap (grow t bucket)) + 1),
            num_buckets := num_buckets (grow t bucket) + 1\<rparr>"
    by (rule split_bucket_SomeD)
  let ?d = "b_depth bucket"
  let ?t1 = "grow t bucket"
  have d: "?d + 1 < 31" using sm by (rule low_mask_SomeD)
  have idx: "idx = h key mod 2 ^ global_depth t" using IndexOf_Some [OF assms(1)] by simp
  have g': "global_depth t' = global_depth ?t1" by (simp add: t')
  have "target_depth h t' key = Some (?d + 1)" if ne: "target_depth h t' key \<noteq> None"
  proof -
    from ne obtain idx' a' b' where
      i': "IndexOf h t' key = Some idx'" and da: "dir_at t' idx' = Some (a', b')"
      by (auto simp: target_depth_def split: option.splits)
    have idx': "idx' = h key mod 2 ^ global_depth ?t1" using IndexOf_Some [OF i'] g' by simp
    have low: "idx' mod 2 ^ ?d = idx mod 2 ^ ?d"
    proof (cases "global_depth t = ?d")
      case True
      then have "global_depth ?t1 = ?d + 1" by (simp add: grow_def)
      with idx' idx True mod_mod_pow2 [of ?d "?d + 1" "h key"] show ?thesis by simp
    next
      case False
      then have "global_depth ?t1 = global_depth t" by (simp add: grow_def)
      with idx' idx show ?thesis by simp
    qed
    from da have lt: "idx' < length (dir ?t1)" and a': "a' = dir t' ! idx'"
      and b': "b' = heap t' ! a'"
      by (auto simp: dir_at_def t' split: if_splits)
    have "a' = length (heap ?t1) \<or> a' = length (heap ?t1) + 1"
      using a' lt low by (simp add: t' repoint_nth low_mask_and [OF bm])
    then have "b_depth b' = ?d + 1"
      using b' by (auto simp: t' nth_append Bucket_new_def)
    with i' da show ?thesis by (simp add: target_depth_def)
  qed
  with d show ?thesis by blast
qed

termination InsertInternal
proof (relation "measure (\<lambda>(h, t, key, value).
         case target_depth h t key of None \<Rightarrow> 0 | Some d \<Rightarrow> 32 - d)")
  show "wf (measure (\<lambda>(h, t, key, value).
         case target_depth h t key of None \<Rightarrow> 0 | Some d \<Rightarrow> 32 - d))"
    by simp
next
  fix h :: "'k \<Rightarrow> nat" and t :: "('k, 'v) ExtendibleHashTable" and key :: 'k and "value" :: 'v
    and idx ab a bucket t'
  assume a: "IndexOf h t key = Some idx" "dir_at t idx = Some ab" "(a, bucket) = ab"
    "Bucket_Insert bucket key value = None" "split_bucket h t idx bucket = Some t'"
  from a(2,3) have da: "dir_at t idx = Some (a, bucket)" by simp
  from split_target_depth [OF a(1) da a(5)]
  have d: "b_depth bucket + 1 < 31"
    and td: "target_depth h t' key = None \<or> target_depth h t' key = Some (b_depth bucket + 1)"
    by simp_all
  have "target_depth h t key = Some (b_depth bucket)"
    using a(1) da by (simp add: target_depth_def)
  with d td show "((h, t', key, value), (h, t, key, value)) \<in> measure (\<lambda>(h, t, key, value).
         case target_depth h t key of None \<Rightarrow> 0 | Some d \<Rightarrow> 32 - d)"
    by auto
qed

lemma ht_invD:
  assumes "ht_inv h t"
  shows "global_depth t \<le> 30" "length (dir t) = 2 ^ global_depth t"
    "\<And>i. i < length (dir t) \<Longrightarrow> dir t ! i < length (heap t)"
    "\<And>i. i < length (dir t) \<Longrightarrow> bucket_ok h (global_depth t) (bucket_size t) i (slot_bucket t i)"
    "\<And>i j. i < length (dir t) \<Longrightarrow> j < length (dir t) \<Longrightarrow>
        (i mod 2 ^ b_depth (slot_bucket t i) = j mod 2 ^ b_depth (slot_bucket t i)) =
        (dir t ! i = dir t ! j)"
  using assms unfolding ht_inv_def by blast+

lemma ht_invI:
  assumes "global_depth t \<le> 30" "length (dir t) = 2 ^ global_depth t"
    "\<And>i. i < length (dir t) \<Longrightarrow> dir t ! i < length (heap t)"
    "\<And>i. i < length (dir t) \<Longrightarrow> bucket_ok h (global_depth t) (bucket_size t) i (slot_bucket t i)"
    "\<And>i j. i < length (dir t) \<Longrightarrow> j < length (dir t) \<Longrightarrow>
        (i mod 2 ^ b_depth (slot_bucket t i) = j mod 2 ^ b_depth (slot_bucket t i)) =
        (dir t ! i = dir t ! j)"
  shows "ht_inv h t"
  using assms unfolding ht_inv_def by blast

lemma index_in_dir: "ht_inv h t \<Longrightarrow> x mod 2 ^ global_depth t < length (dir t)"
  by (simp add: ht_inv_def)

lemma nth_append_self:
  "i < 2 * length xs \<Longrightarrow> (xs @ xs) ! i = xs ! (i mod length xs)"
  by (cases "i < length xs") (simp_all add: nth_append le_mod_geq)

lemma bucket_ok_mono:
  assumes "bucket_ok h g n (i mod 2 ^ g) b" "g \<le> g'"
  shows "bucket_ok h g' n i b"
  using assms unfolding bucket_ok_def by (auto simp: mod_mod_pow2)

lemma grow_inv:
  assumes inv: "ht_inv h t" and d: "b_depth bucket < 30"
  shows "ht_inv h (grow t bucket)"
proof (cases "global_depth t = b_depth bucket")
  case False
  then show ?thesis using inv by (simp add: grow_def)
next
  case True
  let ?g = "global_depth t"
  let ?t1 = "t\<lparr>global_depth := ?g + 1, dir := dir t @ dir t\<rparr>"
  note I = ht_invD [OF inv]
  have len: "length (dir t) = 2 ^ ?g" by (rule I(2))
  have nth: "(dir t @ dir t) ! i = dir t ! (i mod 2 ^ ?g)" if "i < length (dir ?t1)" for i
    using that nth_append_self [of i "dir t"] len by simp
  have inr: "i mod 2 ^ ?g < length (dir t)" for i using len by simp
  have slot: "slot_bucket ?t1 i = slot_bucket t (i mod 2 ^ ?g)" if "i < length (dir ?t1)" for i
    using nth [OF that] by (simp add: slot_bucket_def)
  have "ht_inv h ?t1"
  proof (rule ht_invI)
    show "global_depth ?t1 \<le> 30" using True d by simp
    show "length (dir ?t1) = 2 ^ global_depth ?t1" using len by simp
  next
    fix i assume i: "i < length (dir ?t1)"
    show "dir ?t1 ! i < length (heap ?t1)" using nth [OF i] I(3) [OF inr] by simp
    have "bucket_ok h ?g (bucket_size t) (i mod 2 ^ ?g) (slot_bucket t (i mod 2 ^ ?g))"
      by (rule I(4) [OF inr])
    then have "bucket_ok h (?g + 1) (bucket_size t) i (slot_bucket t (i mod 2 ^ ?g))"
      by (rule bucket_ok_mono) simp
    then show "bucket_ok h (global_depth ?t1) (bucket_size ?t1) i (slot_bucket ?t1 i)"
      using slot [OF i] by simp
  next
    fix i j assume i: "i < length (dir ?t1)" and j: "j < length (dir ?t1)"
    let ?e = "b_depth (slot_bucket t (i mod 2 ^ ?g))"
    have e: "?e \<le> ?g" using I(4) [OF inr, of i] by (simp add: bucket_ok_def)
    have "(i mod 2 ^ ?e = j mod 2 ^ ?e) =
          ((i mod 2 ^ ?g) mod 2 ^ ?e = (j mod 2 ^ ?g) mod 2 ^ ?e)"
      using e by (simp add: mod_mod_pow2)
    also have "\<dots> = (dir t ! (i mod 2 ^ ?g) = dir t ! (j mod 2 ^ ?g))"
      by (rule I(5) [OF inr inr])
    finally show "(i mod 2 ^ b_depth (slot_bucket ?t1 i) = j mod 2 ^ b_depth (slot_bucket ?t1 i)) =
        (dir ?t1 ! i = dir ?t1 ! j)"
      using nth [OF i] nth [OF j] slot [OF i] by simp
  qed
  then show ?thesis using True by (simp add: grow_def)
qed

lemma grow_fields [simp]:
  "heap (grow t bucket) = heap t" "bucket_size (grow t bucket) = bucket_size t"
  "num_buckets (grow t bucket) = num_buckets t"
  by (simp_all add: grow_def)

lemma grow_slot:
  assumes inv: "ht_inv h t"
  shows "slot_bucket (grow t bucket) (x mod 2 ^ global_depth (grow t bucket)) =
         slot_bucket t (x mod 2 ^ global_depth t)"
    and "dir (grow t bucket) ! (x mod 2 ^ global_depth (grow t bucket)) =
         dir t ! (x mod 2 ^ global_depth t)"
proof -
  let ?g = "global_depth t"
  have len: "length (dir t) = 2 ^ ?g" by (rule ht_invD(2) [OF inv])
  have "(dir t @ dir t) ! (x mod 2 ^ (?g + 1)) = dir t ! (x mod 2 ^ ?g)"
  proof -
    have "x mod 2 ^ (?g + 1) < 2 * length (dir t)" using len by simp
    from nth_append_self [OF this] mod_mod_pow2 [of ?g "?g + 1" x] len
    show ?thesis by simp
  qed
  then show "dir (grow t bucket) ! (x mod 2 ^ global_depth (grow t bucket)) =
         dir t ! (x mod 2 ^ global_depth t)"
    by (auto simp: grow_def)
  then show "slot_bucket (grow t bucket) (x mod 2 ^ global_depth (grow t bucket)) =
         slot_bucket t (x mod 2 ^ global_depth t)"
    by (simp add: slot_bucket_def)
qed

lemma grow_lookup: "ht_inv h t \<Longrightarrow> lookup h (grow t bucket) = lookup h t"
  by (rule ext) (simp add: lookup_def grow_slot)

lemma grow_depth:
  "b_depth bucket \<le> global_depth t \<Longrightarrow> b_depth bucket < global_depth (grow t bucket)"
  by (simp add: grow_def)

lemma mod_pow2_step:
  fixes x :: nat
  assumes "e = Suc d" "x mod 2 ^ d = L" "x mod 2 ^ e \<noteq> L"
  shows "x mod 2 ^ e = L + 2 ^ d"
proof -
  have "x mod 2 ^ e = x mod (2 ^ d * 2)" using assms(1) by (simp add: mult.commute)
  also have "\<dots> = 2 ^ d * (x div 2 ^ d mod 2) + x mod 2 ^ d" by (rule mod_mult2_eq)
  finally have eq: "x mod 2 ^ e = 2 ^ d * (x div 2 ^ d mod 2) + L" using assms(2) by simp
  have "x div 2 ^ d mod 2 = 0 \<or> x div 2 ^ d mod 2 = 1" by auto
  with eq assms(3) show ?thesis by auto
qed

lemma mod_pow2_down:
  fixes x y :: nat
  assumes "e = Suc d" "x mod 2 ^ e = y mod 2 ^ e"
  shows "x mod 2 ^ d = y mod 2 ^ d"
proof -
  have "d \<le> e" using assms(1) by simp
  from mod_mod_pow2 [OF this, of x] mod_mod_pow2 [OF this, of y] assms(2)
  show ?thesis by simp
qed

lemma and_pow2_minus1: "(x :: nat) AND (2 ^ d - 1) = x mod 2 ^ d"
proof -
  have "x AND (2 ^ d - 1) = x AND mask d" by (simp only: mask_eq_exp_minus_1)
  also have "\<dots> = take_bit d x" by (simp only: take_bit_eq_mask)
  also have "\<dots> = x mod 2 ^ d" by (rule take_bit_eq_mod)
  finally show ?thesis .
qed

lemma and_pow2_minus_Suc0: "(x :: nat) AND (2 ^ d - Suc 0) = x mod 2 ^ d"
  using and_pow2_minus1 [of x d] by simp

lemma redistribute_eq:
  assumes "global_depth t < 31" "e \<le> global_depth t"
  shows "redistribute h t (2 ^ e - 1) L items =
     Some (filter (\<lambda>x. h (fst x) mod 2 ^ e = L) items,
           filter (\<lambda>x. h (fst x) mod 2 ^ e \<noteq> L) items)"
proof -
  have m: "low_mask e = Some (2 ^ e - 1)" using assms by (simp add: low_mask_Some)
  show ?thesis
    using assms
    by (induction items) (simp_all add: IndexOf_eq and_pow2_minus_Suc0 mod_mod_pow2)
qed

lemma list_find_filter:
  assumes "\<And>x. fst x = key \<Longrightarrow> Q x"
  shows "list_find (filter Q xs) key = list_find xs key"
  using assms by (induction xs) auto

lemma list_find_None_iff: "list_find xs key = None \<longleftrightarrow> key \<notin> fst ` set xs"
  by (induction xs) auto

lemma split_core_eq:
  assumes "global_depth t \<le> 30" "e = Suc (b_depth bucket)" "e \<le> global_depth t"
    "L = idx mod 2 ^ b_depth bucket"
  shows "split_core h t idx bucket = Some
     (t\<lparr>heap := heap t @
          [\<lparr>b_size = bucket_size t, b_depth = e,
            b_list = filter (\<lambda>x. h (fst x) mod 2 ^ e = L) (b_list bucket)\<rparr>,
           \<lparr>b_size = bucket_size t, b_depth = e,
            b_list = filter (\<lambda>x. h (fst x) mod 2 ^ e \<noteq> L) (b_list bucket)\<rparr>],
        dir := map (\<lambda>i. if i mod 2 ^ b_depth bucket = L
                         then (if i mod 2 ^ e = L then length (heap t) else length (heap t) + 1)
                         else dir t ! i) [0..<length (dir t)],
        num_buckets := num_buckets t + 1\<rparr>)"
proof -
  let ?d = "b_depth bucket"
  have bm: "low_mask ?d = Some (2 ^ ?d - 1)" and sm: "low_mask e = Some (2 ^ e - 1)"
    using assms(1-3) by (simp_all add: low_mask_Some)
  have g: "global_depth t < 31" using assms(1) by simp
  have li: "idx AND (2 ^ ?d - 1) = L" using low_mask_and [OF bm] assms(4) by simp
  have rp: "repoint (dir t) (2 ^ ?d - 1) (2 ^ e - 1) L a1 a2 =
      map (\<lambda>i. if i mod 2 ^ ?d = L then (if i mod 2 ^ e = L then a1 else a2) else dir t ! i)
        [0..<length (dir t)]" for a1 a2
    by (simp add: repoint_def and_pow2_minus_Suc0)
  have sm': "low_mask (?d + 1) = Some (2 ^ e - 1)" using sm assms(2) by simp
  show ?thesis
    unfolding split_core_def Let_def bm sm' option.case li
      redistribute_eq [OF g assms(3)] prod.case rp
    using assms(2) by (simp add: Bucket_new_def)
qed

lemma split_core_correct:
  assumes inv: "ht_inv h t"
    and i1: "i1 < length (dir t)" and b: "slot_bucket t i1 = bucket"
    and d: "b_depth bucket < global_depth t"
    and low: "idx mod 2 ^ b_depth bucket = i1 mod 2 ^ b_depth bucket"
    and e: "e = Suc (b_depth bucket)"
  shows "\<exists>t'. split_core h t idx bucket = Some t' \<and> ht_inv h t' \<and>
      global_depth t' = global_depth t \<and> bucket_size t' = bucket_size t \<and>
      num_buckets t' = num_buckets t + 1 \<and> lookup h t' = lookup h t \<and>
      card (set (dir t')) = card (set (dir t)) + 1 \<and>
      (\<forall>j<length (dir t). j mod 2 ^ b_depth bucket = i1 mod 2 ^ b_depth bucket \<longrightarrow>
         slot_bucket t' j = \<lparr>b_size = bucket_size t, b_depth = e,
            b_list = filter (\<lambda>x. h (fst x) mod 2 ^ e = j mod 2 ^ e) (b_list bucket)\<rparr>)"
proof -
  note I = ht_invD [OF inv]
  define dd where "dd = b_depth bucket"
  define L where "L = idx mod 2 ^ dd"
  define n where "n = length (heap t)"
  define items where "items = b_list bucket"
  define B1 :: "('a, 'b) Bucket" where "B1 = \<lparr>b_size = bucket_size t, b_depth = e,
            b_list = filter (\<lambda>x. h (fst x) mod 2 ^ e = L) items\<rparr>"
  define B2 :: "('a, 'b) Bucket" where "B2 = \<lparr>b_size = bucket_size t, b_depth = e,
            b_list = filter (\<lambda>x. h (fst x) mod 2 ^ e \<noteq> L) items\<rparr>"
  define t' where "t' = t\<lparr>heap := heap t @ [B1, B2],
        dir := map (\<lambda>i. if i mod 2 ^ dd = L then (if i mod 2 ^ e = L then n else n + 1)
                         else dir t ! i) [0..<length (dir t)],
        num_buckets := num_buckets t + 1\<rparr>"
  have e': "e = Suc dd" using e by (simp add: dd_def)
  have eg: "e \<le> global_depth t" using d e by simp
  have L1: "L = i1 mod 2 ^ dd" using low by (simp add: L_def dd_def)
  have sc: "split_core h t idx bucket = Some t'"
    using split_core_eq [OF I(1) e eg, of L idx h]
    by (simp add: L_def dd_def t'_def B1_def B2_def n_def items_def)
  have len': "length (dir t') = length (dir t)" by (simp add: t'_def)
  have g': "global_depth t' = global_depth t" by (simp add: t'_def)
  have dir': "dir t' ! j = (if j mod 2 ^ dd = L then (if j mod 2 ^ e = L then n else n + 1)
      else dir t ! j)" if "j < length (dir t)" for j
    using that by (simp add: t'_def)
  have old: "heap t' ! a = heap t ! a" if "a < n" for a
    using that by (simp add: t'_def n_def nth_append)
  have new1: "heap t' ! n = B1" and new2: "heap t' ! (n + 1) = B2"
    by (simp_all add: t'_def n_def nth_append)
  have slot': "slot_bucket t' j = (if j mod 2 ^ dd = L then (if j mod 2 ^ e = L then B1 else B2)
      else slot_bucket t j)" if "j < length (dir t)" for j
    using dir' [OF that] I(3) [OF that] old new1 new2
    by (simp add: slot_bucket_def n_def)
  have ok1: "bucket_ok h (global_depth t) (bucket_size t) i1 bucket"
    using I(4) [OF i1] b by simp
  have items_low: "h (fst x) mod 2 ^ dd = L" if "x \<in> set items" for x
    using ok1 that by (simp add: bucket_ok_def items_def dd_def L1)
  have items_len: "length items \<le> bucket_size t" and items_dist: "distinct (map fst items)"
    using ok1 by (simp_all add: bucket_ok_def items_def)
  have cls: "dir t ! j = dir t ! i1" if "j < length (dir t)" "j mod 2 ^ dd = L" for j
    using I(5) [OF i1 that(1)] that(2) b by (simp add: L1 dd_def)
  have cls_conv: "j mod 2 ^ dd = L" if "j < length (dir t)" "dir t ! j = dir t ! i1" for j
    using I(5) [OF i1 that(1)] that(2) b by (simp add: L1 dd_def)
  have cls_slot: "slot_bucket t j = bucket" if "j < length (dir t)" "j mod 2 ^ dd = L" for j
    using cls [OF that] b by (simp add: slot_bucket_def)
  have B2_low: "h (fst x) mod 2 ^ e = j mod 2 ^ e"
    if "x \<in> set items" "h (fst x) mod 2 ^ e \<noteq> L" "j mod 2 ^ dd = L" "j mod 2 ^ e \<noteq> L" for x j
    using mod_pow2_step [OF e' items_low [OF that(1)] that(2)] mod_pow2_step [OF e' that(3,4)]
    by simp
  have okB1: "bucket_ok h (global_depth t) (bucket_size t) j B1" if "j mod 2 ^ e = L" for j
    using that eg items_len items_dist
    by (auto simp: bucket_ok_def B1_def distinct_map_filter intro: order_trans [OF length_filter_le])
  have okB2: "bucket_ok h (global_depth t) (bucket_size t) j B2"
    if "j mod 2 ^ dd = L" "j mod 2 ^ e \<noteq> L" for j
    using that eg items_len items_dist B2_low
    by (auto simp: bucket_ok_def B2_def distinct_map_filter intro: order_trans [OF length_filter_le])
  have inv': "ht_inv h t'"
  proof (rule ht_invI)
    show "global_depth t' \<le> 30" using I(1) g' by simp
    show "length (dir t') = 2 ^ global_depth t'" using I(2) g' len' by simp
  next
    fix j assume "j < length (dir t')"
    then have j: "j < length (dir t)" using len' by simp
    show "dir t' ! j < length (heap t')"
      using dir' [OF j] I(3) [OF j] by (simp add: t'_def n_def)
    show "bucket_ok h (global_depth t') (bucket_size t') j (slot_bucket t' j)"
      using slot' [OF j] okB1 okB2 I(4) [OF j] g' by (simp add: t'_def)
  next
    fix i j assume "i < length (dir t')" "j < length (dir t')"
    then have i: "i < length (dir t)" and j: "j < length (dir t)" using len' by simp_all
    have lt: "dir t ! i < n" "dir t ! j < n" using I(3) [OF i] I(3) [OF j] by (simp_all add: n_def)
    show "(i mod 2 ^ b_depth (slot_bucket t' i) = j mod 2 ^ b_depth (slot_bucket t' i)) =
        (dir t' ! i = dir t' ! j)"
    proof (cases "i mod 2 ^ dd = L")
      case True
      then have de: "b_depth (slot_bucket t' i) = e" using slot' [OF i] by (simp add: B1_def B2_def)
      show ?thesis
      proof (cases "j mod 2 ^ dd = L")
        case jl: True
        have "(i mod 2 ^ e = j mod 2 ^ e) = ((i mod 2 ^ e = L) = (j mod 2 ^ e = L))"
          using mod_pow2_step [OF e' True] mod_pow2_step [OF e' jl] by auto
        then show ?thesis using de dir' [OF i] dir' [OF j] True jl by simp
      next
        case jn: False
        have "i mod 2 ^ e \<noteq> j mod 2 ^ e" using mod_pow2_down [OF e'] True jn by metis
        then show ?thesis using de dir' [OF i] dir' [OF j] True jn lt by auto
      qed
    next
      case False
      then have si: "slot_bucket t' i = slot_bucket t i" using slot' [OF i] by simp
      show ?thesis
      proof (cases "j mod 2 ^ dd = L")
        case jl: True
        have ne: "dir t ! i \<noteq> dir t ! j" using cls [OF j jl] cls_conv [OF i] False by auto
        then have "i mod 2 ^ b_depth (slot_bucket t i) \<noteq> j mod 2 ^ b_depth (slot_bucket t i)"
          using I(5) [OF i j] by simp
        then show ?thesis using si dir' [OF i] dir' [OF j] False jl lt by auto
      next
        case jn: False
        then show ?thesis using si dir' [OF i] dir' [OF j] False I(5) [OF i j] by simp
      qed
    qed
  qed
  have look: "lookup h t' key = lookup h t key" for key
  proof -
    let ?j = "h key mod 2 ^ global_depth t"
    have j: "?j < length (dir t)" using I(2) by simp
    have je: "?j mod 2 ^ e = h key mod 2 ^ e" using eg by (rule mod_mod_pow2)
    show ?thesis
    proof (cases "?j mod 2 ^ dd = L")
      case False
      then show ?thesis using slot' [OF j] g' by (simp add: lookup_def)
    next
      case True
      note sb = cls_slot [OF j True]
      show ?thesis
      proof (cases "?j mod 2 ^ e = L")
        case T2: True
        then have "list_find (filter (\<lambda>x. h (fst x) mod 2 ^ e = L) items) key = list_find items key"
          using je by (intro list_find_filter) simp
        then show ?thesis using slot' [OF j] True T2 sb g'
          by (simp add: lookup_def B1_def items_def)
      next
        case F2: False
        then have "list_find (filter (\<lambda>x. h (fst x) mod 2 ^ e \<noteq> L) items) key = list_find items key"
          using je by (intro list_find_filter) simp
        then show ?thesis using slot' [OF j] True F2 sb g'
          by (simp add: lookup_def B2_def items_def)
      qed
    qed
  qed
  have tgt: "slot_bucket t' j = \<lparr>b_size = bucket_size t, b_depth = e,
            b_list = filter (\<lambda>x. h (fst x) mod 2 ^ e = j mod 2 ^ e) (b_list bucket)\<rparr>"
    if j: "j < length (dir t)" and jl: "j mod 2 ^ dd = L" for j
  proof (cases "j mod 2 ^ e = L")
    case True
    then show ?thesis using slot' [OF j] jl by (simp add: B1_def items_def)
  next
    case False
    have "filter (\<lambda>x. h (fst x) mod 2 ^ e \<noteq> L) items =
          filter (\<lambda>x. h (fst x) mod 2 ^ e = j mod 2 ^ e) items"
      using B2_low [OF _ _ jl False] False by (intro filter_cong) auto
    then show ?thesis using slot' [OF j] jl False by (simp add: B2_def items_def)
  qed
  have crd: "card (set (dir t')) = card (set (dir t)) + 1"
  proof -
    let ?a = "dir t ! i1"
    have Ldd: "L < 2 ^ dd" by (simp add: L1)
    have pw: "(2 :: nat) ^ e = 2 ^ dd + 2 ^ dd" by (simp add: e')
    have ple: "(2 :: nat) ^ e \<le> 2 ^ global_depth t" using eg by (rule power_increasing) simp
    have jL: "L < length (dir t)" "L mod 2 ^ dd = L" "L mod 2 ^ e = L"
      using Ldd pw ple I(2) by simp_all
    have jH: "L + 2 ^ dd < length (dir t)" "(L + 2 ^ dd) mod 2 ^ dd = L"
      "(L + 2 ^ dd) mod 2 ^ e \<noteq> L"
      using Ldd pw ple I(2) by simp_all
    have in1: "n \<in> set (dir t')"
      using dir' [OF jL(1)] jL(2,3) nth_mem [of L "dir t'"] len' jL(1) by simp
    have in2: "n + 1 \<in> set (dir t')"
      using dir' [OF jH(1)] jH(2,3) nth_mem [of "L + 2 ^ dd" "dir t'"] len' jH(1) by simp
    have sub: "set (dir t') \<subseteq> insert n (insert (n + 1) (set (dir t) - {?a}))"
    proof
      fix x assume "x \<in> set (dir t')"
      then obtain j where j: "j < length (dir t)" and x: "x = dir t' ! j"
        using len' by (auto simp: in_set_conv_nth)
      show "x \<in> insert n (insert (n + 1) (set (dir t) - {?a}))"
      proof (cases "j mod 2 ^ dd = L")
        case True
        then show ?thesis using x dir' [OF j] by simp
      next
        case False
        then have "dir t ! j \<noteq> ?a" using cls_conv [OF j] by blast
        then show ?thesis using x dir' [OF j] False nth_mem [OF j] by simp
      qed
    qed
    have sup: "set (dir t) - {?a} \<subseteq> set (dir t')"
    proof
      fix x assume x: "x \<in> set (dir t) - {?a}"
      then obtain j where j: "j < length (dir t)" and xj: "x = dir t ! j"
        by (auto simp: in_set_conv_nth)
      have "j mod 2 ^ dd \<noteq> L" using cls [OF j] x xj by auto
      then have "dir t' ! j = x" using dir' [OF j] xj by simp
      then show "x \<in> set (dir t')" using nth_mem [of j "dir t'"] j len' by auto
    qed
    have eq: "set (dir t') = insert n (insert (n + 1) (set (dir t) - {?a}))"
      using sub sup in1 in2 by blast
    have "\<forall>x\<in>set (dir t). x < n"
      using I(3) by (auto simp: in_set_conv_nth n_def)
    then have fresh: "n \<notin> set (dir t)" "n + 1 \<notin> set (dir t)" by fastforce+
    have a: "?a \<in> set (dir t)" using i1 by simp
    have "card (set (dir t) - {?a}) = card (set (dir t)) - 1" using a by simp
    moreover have "0 < card (set (dir t))" using a by (auto simp: card_gt_0_iff)
    ultimately show ?thesis using eq fresh by simp
  qed
  show ?thesis
    using sc inv' g' look tgt crd
    by (intro exI [of _ t']) (auto simp: t'_def L1 dd_def)
qed

lemma list_assign_None_iff: "list_assign xs key value = None \<longleftrightarrow> key \<notin> fst ` set xs"
  by (induction xs) auto

lemma list_assign_Some:
  "list_assign xs key value = Some ys \<Longrightarrow>
     map fst ys = map fst xs \<and> length ys = length xs \<and>
     list_find ys k = (if k = key then Some value else list_find xs k)"
  by (induction xs arbitrary: ys) (auto split: if_splits)

lemma list_find_append:
  "list_find (xs @ ys) k = (case list_find xs k of None \<Rightarrow> list_find ys k | Some v \<Rightarrow> Some v)"
  by (induction xs) auto

lemma Bucket_Insert_Some:
  assumes "Bucket_Insert b key value = Some b'" "bucket_ok h g n i b"
    "h key mod 2 ^ b_depth b = i mod 2 ^ b_depth b"
  shows "bucket_ok h g n i b' \<and> b_depth b' = b_depth b \<and>
     list_find (b_list b') k = (if k = key then Some value else list_find (b_list b) k)"
proof (cases "list_assign (b_list b) key value")
  case (Some ys)
  then have b': "b' = b\<lparr>b_list := ys\<rparr>" using assms(1) by (simp add: Bucket_Insert_def)
  from list_assign_Some [OF Some, of k]
  have m: "map fst ys = map fst (b_list b)" and l: "length ys = length (b_list b)"
    and f: "list_find ys k = (if k = key then Some value else list_find (b_list b) k)"
    by simp_all
  have keys: "fst ` set ys = fst ` set (b_list b)" using m by (metis set_map)
  have "\<forall>k\<in>fst ` set (b_list b). h k mod 2 ^ b_depth b = i mod 2 ^ b_depth b"
    using assms(2) by (auto simp: bucket_ok_def)
  then have "\<forall>k\<in>fst ` set ys. h k mod 2 ^ b_depth b = i mod 2 ^ b_depth b"
    using keys by simp
  then have "\<forall>e\<in>set ys. h (fst e) mod 2 ^ b_depth b = i mod 2 ^ b_depth b"
    by simp
  then show ?thesis using assms(2) b' m l f by (simp add: bucket_ok_def)
next
  case None
  then have nf: "\<not> IsFull b" and b': "b' = b\<lparr>b_list := b_list b @ [(key, value)]\<rparr>"
    using assms(1) by (auto simp: Bucket_Insert_def split: if_splits)
  have absent: "key \<notin> fst ` set (b_list b)" using None by (simp add: list_assign_None_iff)
  then have fn: "list_find (b_list b) key = None" by (simp add: list_find_None_iff)
  have "list_find (b_list b') k = (if k = key then Some value else list_find (b_list b) k)"
    using fn by (auto simp: b' list_find_append split: option.splits)
  moreover have "bucket_ok h g n i b'"
    using assms(2,3) nf absent by (auto simp: bucket_ok_def b' IsFull_def)
  ultimately show ?thesis by (simp add: b')
qed

lemma bucket_ok_slots:
  assumes inv: "ht_inv h t" and i: "i < length (dir t)" and j: "j < length (dir t)"
    and same: "dir t ! j = dir t ! i"
  shows "j mod 2 ^ b_depth (slot_bucket t i) = i mod 2 ^ b_depth (slot_bucket t i)"
  using ht_invD(5) [OF inv i j] same by simp

lemma insert_in_place:
  assumes inv: "ht_inv h t" and idx: "idx = h key mod 2 ^ global_depth t"
    and a: "a = dir t ! idx" and bucket: "bucket = heap t ! a"
    and ins: "Bucket_Insert bucket key value = Some bucket'"
  shows "ht_inv h (t\<lparr>heap := (heap t)[a := bucket']\<rparr>) \<and>
     lookup h (t\<lparr>heap := (heap t)[a := bucket']\<rparr>) = (lookup h t)(key \<mapsto> value)"
proof -
  note I = ht_invD [OF inv]
  let ?t' = "t\<lparr>heap := (heap t)[a := bucket']\<rparr>"
  have i: "idx < length (dir t)" using I(2) idx by simp
  have sb: "slot_bucket t idx = bucket" using a bucket by (simp add: slot_bucket_def)
  have al: "a < length (heap t)" using I(3) [OF i] a by simp
  have okb: "bucket_ok h (global_depth t) (bucket_size t) idx bucket" using I(4) [OF i] sb by simp
  then have dg: "b_depth bucket \<le> global_depth t" by (simp add: bucket_ok_def)
  have keylow: "h key mod 2 ^ b_depth bucket = idx mod 2 ^ b_depth bucket"
    using dg idx by (simp add: mod_mod_pow2)
  have slot': "slot_bucket ?t' j = (if dir t ! j = a then bucket' else slot_bucket t j)"
    if "j < length (dir t)" for j
    using I(3) [OF that] al by (simp add: slot_bucket_def nth_list_update)
  have jlow: "j mod 2 ^ b_depth bucket = idx mod 2 ^ b_depth bucket"
    if "j < length (dir t)" "dir t ! j = a" for j
    using bucket_ok_slots [OF inv i that(1)] that(2) a sb by simp
  have okj: "bucket_ok h (global_depth t) (bucket_size t) j bucket"
    if "j < length (dir t)" "dir t ! j = a" for j
    using I(4) [OF that(1)] that(2) bucket by (simp add: slot_bucket_def)
  have ok': "bucket_ok h (global_depth t) (bucket_size t) j bucket' \<and> b_depth bucket' = b_depth bucket"
    if "j < length (dir t)" "dir t ! j = a" for j
    using Bucket_Insert_Some [OF ins okj [OF that]] keylow jlow [OF that] by simp
  have dep: "b_depth (slot_bucket ?t' j) = b_depth (slot_bucket t j)" if "j < length (dir t)" for j
    using slot' [OF that] ok' [OF that] bucket by (auto simp: slot_bucket_def)
  have inv': "ht_inv h ?t'"
  proof (rule ht_invI)
    show "global_depth ?t' \<le> 30" using I(1) by simp
    show "length (dir ?t') = 2 ^ global_depth ?t'" using I(2) by simp
  next
    fix j assume "j < length (dir ?t')"
    then have j: "j < length (dir t)" by simp
    show "dir ?t' ! j < length (heap ?t')" using I(3) [OF j] by simp
    show "bucket_ok h (global_depth ?t') (bucket_size ?t') j (slot_bucket ?t' j)"
      using slot' [OF j] ok' [OF j] I(4) [OF j] by simp
  next
    fix i j assume "i < length (dir ?t')" "j < length (dir ?t')"
    then have i: "i < length (dir t)" and j: "j < length (dir t)" by simp_all
    show "(i mod 2 ^ b_depth (slot_bucket ?t' i) = j mod 2 ^ b_depth (slot_bucket ?t' i)) =
        (dir ?t' ! i = dir ?t' ! j)"
      using I(5) [OF i j] dep [OF i] by simp
  qed
  have look: "lookup h ?t' k = ((lookup h t)(key \<mapsto> value)) k" for k
  proof -
    let ?j = "h k mod 2 ^ global_depth t"
    have j: "?j < length (dir t)" using I(2) by simp
    show ?thesis
    proof (cases "dir t ! ?j = a")
      case True
      then have sj: "slot_bucket t ?j = bucket" using bucket by (simp add: slot_bucket_def)
      from Bucket_Insert_Some [OF ins okj [OF j True], of k] keylow jlow [OF j True]
      have "list_find (b_list bucket') k = (if k = key then Some value else list_find (b_list bucket) k)"
        by simp
      then show ?thesis using slot' [OF j] True sj by (simp add: lookup_def)
    next
      case False
      then have "k \<noteq> key" using idx a by auto
      then show ?thesis using slot' [OF j] False by (simp add: lookup_def)
    qed
  qed
  from inv' look show ?thesis by blast
qed

lemma split_bucket_correct:
  assumes inv: "ht_inv h t" and idx: "idx = h key mod 2 ^ global_depth t"
    and bucket: "bucket = slot_bucket t idx"
    and d: "b_depth bucket < 30"
  shows "\<exists>t'. split_bucket h t idx bucket = Some t' \<and> ht_inv h t' \<and>
      global_depth t' = global_depth (grow t bucket) \<and> bucket_size t' = bucket_size t \<and>
      num_buckets t' = num_buckets t + 1 \<and> lookup h t' = lookup h t \<and>
      card (set (dir t')) = card (set (dir t)) + 1 \<and>
      slot_bucket t' (h key mod 2 ^ global_depth t') =
        \<lparr>b_size = bucket_size t, b_depth = Suc (b_depth bucket),
         b_list = filter (\<lambda>x. h (fst x) mod 2 ^ Suc (b_depth bucket) =
                               h key mod 2 ^ Suc (b_depth bucket)) (b_list bucket)\<rparr>"
proof -
  note I = ht_invD [OF inv]
  let ?t1 = "grow t bucket"
  let ?i1 = "h key mod 2 ^ global_depth ?t1"
  let ?d = "b_depth bucket"
  have i: "idx < length (dir t)" using I(2) idx by simp
  have dg: "?d \<le> global_depth t" using I(4) [OF i] bucket by (simp add: bucket_ok_def)
  have inv1: "ht_inv h ?t1" by (rule grow_inv [OF inv d])
  have i1: "?i1 < length (dir ?t1)" using ht_invD(2) [OF inv1] by simp
  have b1: "slot_bucket ?t1 ?i1 = bucket" using grow_slot(1) [OF inv] idx bucket by simp
  have d1: "?d < global_depth ?t1" by (rule grow_depth [OF dg])
  have low: "idx mod 2 ^ ?d = ?i1 mod 2 ^ ?d"
    using dg d1 idx by (simp add: mod_mod_pow2)
  from split_core_correct [OF inv1 i1 b1 d1 low refl]
  obtain t' where sc: "split_core h ?t1 idx bucket = Some t'" and inv': "ht_inv h t'"
    and g': "global_depth t' = global_depth ?t1" and n': "bucket_size t' = bucket_size ?t1"
    and nb: "num_buckets t' = num_buckets ?t1 + 1" and lk: "lookup h t' = lookup h ?t1"
    and cd: "card (set (dir t')) = card (set (dir ?t1)) + 1"
    and tg: "\<forall>j<length (dir ?t1). j mod 2 ^ ?d = ?i1 mod 2 ^ ?d \<longrightarrow>
         slot_bucket t' j = \<lparr>b_size = bucket_size ?t1, b_depth = Suc ?d,
            b_list = filter (\<lambda>x. h (fst x) mod 2 ^ Suc ?d = j mod 2 ^ Suc ?d) (b_list bucket)\<rparr>"
    by blast
  have "?i1 mod 2 ^ Suc ?d = h key mod 2 ^ Suc ?d"
    using d1 by (intro mod_mod_pow2) simp
  with tg i1 have "slot_bucket t' ?i1 = \<lparr>b_size = bucket_size t, b_depth = Suc ?d,
         b_list = filter (\<lambda>x. h (fst x) mod 2 ^ Suc ?d = h key mod 2 ^ Suc ?d) (b_list bucket)\<rparr>"
    by simp
  moreover have "set (dir ?t1) = set (dir t)" by (simp add: grow_def)
  ultimately show ?thesis
    using sc inv' g' n' nb lk cd grow_lookup [OF inv, of bucket]
    by (intro exI [of _ t']) (simp add: split_bucket_def)
qed

lemma split_bucket_depth: "split_bucket h t idx bucket = Some t' \<Longrightarrow> b_depth bucket < 30"
  by (auto simp: split_bucket_def split_core_def Let_def low_mask_def split: option.splits if_splits)

lemma dir_at_inv:
  assumes "ht_inv h t"
  shows "dir_at t (x mod 2 ^ global_depth t) =
     Some (dir t ! (x mod 2 ^ global_depth t), slot_bucket t (x mod 2 ^ global_depth t))"
  using ht_invD(2,3) [OF assms] by (simp add: dir_at_def slot_bucket_def)

lemma IndexOf_inv: "ht_inv h t \<Longrightarrow> IndexOf h t key = Some (h key mod 2 ^ global_depth t)"
  using ht_invD(1) by (intro IndexOf_eq) fastforce

lemma InsertInternal_correct:
  "ht_inv h t \<Longrightarrow> InsertInternal h t key value = Some t' \<Longrightarrow>
     ht_inv h t' \<and> lookup h t' = (lookup h t)(key \<mapsto> value) \<and> bucket_size t' = bucket_size t"
proof (induction h t key "value" rule: InsertInternal.induct)
  case (1 h t key "value")
  let ?idx = "h key mod 2 ^ global_depth t"
  let ?a = "dir t ! ?idx"
  let ?bucket = "slot_bucket t ?idx"
  note inv = "1.prems"(1)
  note io = IndexOf_inv [OF inv, of key]
  note da = dir_at_inv [OF inv, of "h key"]
  show ?case
  proof (cases "Bucket_Insert ?bucket key value")
    case (Some bucket')
    then have "t' = t\<lparr>heap := (heap t)[?a := bucket']\<rparr>"
      using "1.prems"(2) io da by (simp add: InsertInternal.simps [of h t])
    with insert_in_place [OF inv refl refl _ Some] show ?thesis
      by (simp add: slot_bucket_def)
  next
    case None
    show ?thesis
    proof (cases "split_bucket h t ?idx ?bucket")
      case N2: None
      then show ?thesis using "1.prems"(2) io da None by (simp add: InsertInternal.simps [of h t])
    next
      case (Some t1)
      then have rec: "InsertInternal h t1 key value = Some t'"
        using "1.prems"(2) io da None by (simp add: InsertInternal.simps [of h t])
      from split_bucket_correct [OF inv refl refl split_bucket_depth [OF Some]] Some
      have inv1: "ht_inv h t1" and lk: "lookup h t1 = lookup h t"
        and n1: "bucket_size t1 = bucket_size t" by auto
      from "1.IH" [OF io da refl None Some inv1 rec] lk n1 show ?thesis by simp
    qed
  qed
qed

lemma ht_inv_new: "ht_inv h (ExtendibleHashTable_new n)"
  by (rule ht_invI)
     (simp_all add: ExtendibleHashTable_new_def Bucket_new_def slot_bucket_def bucket_ok_def)

lemma Find_inv: "ht_inv h t \<Longrightarrow> Find h t key = Some (lookup h t key)"
  by (simp add: Find_def IndexOf_inv dir_at_inv Bucket_Find_def lookup_def)

lemma list_remove_fst: "fst (list_remove xs key) = (key \<in> fst ` set xs)"
  by (induction xs) auto

lemma list_remove_absent: "key \<notin> fst ` set xs \<Longrightarrow> snd (list_remove xs key) = xs"
  by (induction xs) auto

lemma list_remove_set: "set (snd (list_remove xs key)) \<subseteq> set xs"
  by (induction xs) auto

lemma list_remove_length: "length (snd (list_remove xs key)) \<le> length xs"
  by (induction xs) auto

lemma list_remove_distinct:
  "distinct (map fst xs) \<Longrightarrow> distinct (map fst (snd (list_remove xs key)))"
proof (induction xs)
  case Nil
  then show ?case by simp
next
  case (Cons x xs)
  have "fst ` set (snd (list_remove xs key)) \<subseteq> fst ` set xs"
    using list_remove_set [of xs key] by blast
  with Cons show ?case by auto
qed

lemma list_remove_find:
  "distinct (map fst xs) \<Longrightarrow>
     list_find (snd (list_remove xs key)) k = (if k = key then None else list_find xs k)"
  by (induction xs) (force simp: list_find_None_iff)+

lemma Remove_key_inv:
  assumes inv: "ht_inv h t"
  shows "\<exists>t'. Remove_key h t key = Some (lookup h t key \<noteq> None, t') \<and> ht_inv h t' \<and>
     lookup h t' = (lookup h t)(key := None) \<and> bucket_size t' = bucket_size t \<and>
     global_depth t' = global_depth t \<and> dir t' = dir t \<and> num_buckets t' = num_buckets t \<and>
     (lookup h t key = None \<longrightarrow> t' = t)"
proof -
  note I = ht_invD [OF inv]
  let ?idx = "h key mod 2 ^ global_depth t"
  let ?a = "dir t ! ?idx"
  let ?bucket = "slot_bucket t ?idx"
  let ?bucket' = "?bucket\<lparr>b_list := snd (list_remove (b_list ?bucket) key)\<rparr>"
  let ?t' = "t\<lparr>heap := (heap t)[?a := ?bucket']\<rparr>"
  have i: "?idx < length (dir t)" using I(2) by simp
  have al: "?a < length (heap t)" by (rule I(3) [OF i])
  have r: "fst (list_remove (b_list ?bucket) key) = (lookup h t key \<noteq> None)"
    by (simp add: list_remove_fst lookup_def list_find_None_iff)
  have rm: "Remove_key h t key = Some (lookup h t key \<noteq> None, ?t')"
    using r by (simp add: Remove_key_def IndexOf_inv [OF inv] dir_at_inv [OF inv] Bucket_Remove_def)
  have slot': "slot_bucket ?t' j = (if dir t ! j = ?a then ?bucket' else slot_bucket t j)"
    if "j < length (dir t)" for j
    using I(3) [OF that] al by (simp add: slot_bucket_def nth_list_update)
  have ok': "bucket_ok h (global_depth t) (bucket_size t) j ?bucket'"
    if j: "j < length (dir t)" and ja: "dir t ! j = ?a" for j
  proof -
    have "bucket_ok h (global_depth t) (bucket_size t) j ?bucket"
      using I(4) [OF j] ja by (simp add: slot_bucket_def)
    then show ?thesis
      using list_remove_set [of "b_list ?bucket" key] list_remove_length [of "b_list ?bucket" key]
        list_remove_distinct [of "b_list ?bucket" key]
      by (auto simp: bucket_ok_def)
  qed
  have dep: "b_depth (slot_bucket ?t' j) = b_depth (slot_bucket t j)" if "j < length (dir t)" for j
    using slot' [OF that] by (auto simp: slot_bucket_def)
  have inv': "ht_inv h ?t'"
  proof (rule ht_invI)
    show "global_depth ?t' \<le> 30" using I(1) by simp
    show "length (dir ?t') = 2 ^ global_depth ?t'" using I(2) by simp
  next
    fix j assume "j < length (dir ?t')"
    then have j: "j < length (dir t)" by simp
    show "dir ?t' ! j < length (heap ?t')" using I(3) [OF j] by simp
    show "bucket_ok h (global_depth ?t') (bucket_size ?t') j (slot_bucket ?t' j)"
      using slot' [OF j] ok' [OF j] I(4) [OF j] by simp
  next
    fix i j assume "i < length (dir ?t')" "j < length (dir ?t')"
    then have i: "i < length (dir t)" and j: "j < length (dir t)" by simp_all
    show "(i mod 2 ^ b_depth (slot_bucket ?t' i) = j mod 2 ^ b_depth (slot_bucket ?t' i)) =
        (dir ?t' ! i = dir ?t' ! j)"
      using I(5) [OF i j] dep [OF i] by simp
  qed
  have dist: "distinct (map fst (b_list ?bucket))" using I(4) [OF i] by (simp add: bucket_ok_def)
  have look: "lookup h ?t' k = ((lookup h t)(key := None)) k" for k
  proof -
    let ?j = "h k mod 2 ^ global_depth t"
    have j: "?j < length (dir t)" using I(2) by simp
    show ?thesis
    proof (cases "dir t ! ?j = ?a")
      case True
      then have sj: "slot_bucket t ?j = ?bucket" by (simp add: slot_bucket_def)
      show ?thesis using slot' [OF j] True sj list_remove_find [OF dist, of key k]
        by (simp add: lookup_def)
    next
      case False
      then have "k \<noteq> key" by auto
      then show ?thesis using slot' [OF j] False by (simp add: lookup_def)
    qed
  qed
  have same: "?t' = t" if "lookup h t key = None"
  proof -
    from that have "key \<notin> fst ` set (b_list ?bucket)"
      by (simp add: lookup_def list_find_None_iff)
    then have "?bucket' = ?bucket" by (simp add: list_remove_absent)
    then have "(heap t)[?a := ?bucket'] = heap t" by (simp add: slot_bucket_def)
    then show ?thesis by simp
  qed
  from rm inv' look same show ?thesis by (intro exI [of _ ?t']) auto
qed


lemma ht_reachable_inv: "ht_reachable h n t \<Longrightarrow> ht_inv h t \<and> bucket_size t = n"
proof (induction rule: ht_reachable.induct)
  case ht_new
  show ?case by (simp add: ht_inv_new) (simp add: ExtendibleHashTable_new_def)
next
  case (ht_Insert t key "value" t')
  then show ?case using InsertInternal_correct [of h t key "value" t'] by (simp add: Insert_def)
next
  case (ht_Remove t key r t')
  then show ?case using Remove_key_inv [of h t key] by auto
qed

lemma filter_agree_filter:
  fixes xs :: "('k \<times> 'v) list"
  assumes "e \<le> D"
  shows "filter (\<lambda>x. h (fst x) mod 2 ^ D = h key mod 2 ^ D)
           (filter (\<lambda>x. h (fst x) mod 2 ^ e = h key mod 2 ^ e) xs) =
         filter (\<lambda>x. h (fst x) mod 2 ^ D = (h key :: nat) mod 2 ^ D) xs"
proof -
  have imp: "h (fst x) mod 2 ^ e = h key mod 2 ^ e" if "h (fst x) mod 2 ^ D = h key mod 2 ^ D" for x :: "'k \<times> 'v"
  proof -
    have "h (fst x) mod 2 ^ e = (h (fst x) mod 2 ^ D) mod 2 ^ e"
      by (rule mod_mod_pow2 [OF assms, symmetric])
    also have "\<dots> = (h key mod 2 ^ D) mod 2 ^ e" by (simp only: that)
    also have "\<dots> = h key mod 2 ^ e" by (rule mod_mod_pow2 [OF assms])
    finally show ?thesis .
  qed
  show ?thesis
  proof (induction xs)
    case Nil
    show ?case by simp
  next
    case (Cons x xs)
    show ?case
    proof (cases "h (fst x) mod 2 ^ D = h key mod 2 ^ D")
      case True
      with imp [OF True] Cons show ?thesis by simp
    next
      case False
      with Cons show ?thesis by simp
    qed
  qed
qed

lemma crowd_target_depth:
  assumes inv: "ht_inv h t"
  shows "crowd h t key (b_depth (slot_bucket t (h key mod 2 ^ global_depth t))) =
         length (b_list (slot_bucket t (h key mod 2 ^ global_depth t)))"
proof -
  note I = ht_invD [OF inv]
  let ?idx = "h key mod 2 ^ global_depth t"
  let ?b = "slot_bucket t ?idx"
  have i: "?idx < length (dir t)" using I(2) by simp
  have ok: "bucket_ok h (global_depth t) (bucket_size t) ?idx ?b" by (rule I(4) [OF i])
  then have "b_depth ?b \<le> global_depth t" by (simp add: bucket_ok_def)
  then have "?idx mod 2 ^ b_depth ?b = h key mod 2 ^ b_depth ?b" by (rule mod_mod_pow2)
  with ok have "\<forall>x\<in>set (b_list ?b). h (fst x) mod 2 ^ b_depth ?b = h key mod 2 ^ b_depth ?b"
    by (simp add: bucket_ok_def)
  then show ?thesis by (simp add: crowd_def)
qed

lemma crowd_le: "crowd h t key D \<le> length (b_list (slot_bucket t (h key mod 2 ^ global_depth t)))"
  by (simp add: crowd_def)

lemma Bucket_Insert_None_iff:
  "Bucket_Insert b key value = None \<longleftrightarrow> key \<notin> fst ` set (b_list b) \<and> b_size b \<le> length (b_list b)"
proof (cases "list_assign (b_list b) key value")
  case None
  then have "key \<notin> fst ` set (b_list b)" by (simp add: list_assign_None_iff)
  with None show ?thesis by (simp add: Bucket_Insert_def IsFull_def)
next
  case (Some ys)
  then have "list_assign (b_list b) key value \<noteq> None" by simp
  then have "key \<in> fst ` set (b_list b)" by (simp only: list_assign_None_iff not_not)
  with Some show ?thesis by (simp add: Bucket_Insert_def)
qed

lemma InsertInternal_unfold:
  assumes "ht_inv h t"
  shows "InsertInternal h t key value =
     (case Bucket_Insert (slot_bucket t (h key mod 2 ^ global_depth t)) key value of
        Some bucket' \<Rightarrow> Some (t\<lparr>heap := (heap t)[dir t ! (h key mod 2 ^ global_depth t) := bucket']\<rparr>)
      | None \<Rightarrow>
          (case split_bucket h t (h key mod 2 ^ global_depth t)
                  (slot_bucket t (h key mod 2 ^ global_depth t)) of
             None \<Rightarrow> None
           | Some t' \<Rightarrow> InsertInternal h t' key value))"
  by (simp add: InsertInternal.simps [of h t] IndexOf_inv [OF assms] dir_at_inv [OF assms])

lemma split_bucket_crowd:
  assumes inv: "ht_inv h t" and sp: "split_bucket h t (h key mod 2 ^ global_depth t)
      (slot_bucket t (h key mod 2 ^ global_depth t)) = Some t1"
  shows "ht_inv h t1" "lookup h t1 = lookup h t" "bucket_size t1 = bucket_size t"
    "num_buckets t1 = num_buckets t + 1"
    "card (set (dir t1)) = card (set (dir t)) + 1"
    "global_depth t1 = max (global_depth t)
        (Suc (b_depth (slot_bucket t (h key mod 2 ^ global_depth t))))"
    "b_depth (slot_bucket t1 (h key mod 2 ^ global_depth t1)) =
        Suc (b_depth (slot_bucket t (h key mod 2 ^ global_depth t)))"
    "\<And>D. Suc (b_depth (slot_bucket t (h key mod 2 ^ global_depth t))) \<le> D \<Longrightarrow>
        crowd h t1 key D = crowd h t key D"
proof -
  let ?idx = "h key mod 2 ^ global_depth t"
  let ?b = "slot_bucket t ?idx"
  have i: "?idx < length (dir t)" using ht_invD(2) [OF inv] by simp
  have dg: "b_depth ?b \<le> global_depth t" using ht_invD(4) [OF inv i] by (simp add: bucket_ok_def)
  from split_bucket_correct [OF inv refl refl split_bucket_depth [OF sp]] sp
  have inv1: "ht_inv h t1" and g1: "global_depth t1 = global_depth (grow t ?b)"
    and n1: "bucket_size t1 = bucket_size t" and nb: "num_buckets t1 = num_buckets t + 1"
    and lk: "lookup h t1 = lookup h t"
    and cd: "card (set (dir t1)) = card (set (dir t)) + 1"
    and tg: "slot_bucket t1 (h key mod 2 ^ global_depth t1) =
        \<lparr>b_size = bucket_size t, b_depth = Suc (b_depth ?b),
         b_list = filter (\<lambda>x. h (fst x) mod 2 ^ Suc (b_depth ?b) =
                               h key mod 2 ^ Suc (b_depth ?b)) (b_list ?b)\<rparr>"
    by auto
  show "ht_inv h t1" "lookup h t1 = lookup h t" "bucket_size t1 = bucket_size t"
    "num_buckets t1 = num_buckets t + 1" "card (set (dir t1)) = card (set (dir t)) + 1"
    by (fact inv1 lk n1 nb cd)+
  show "global_depth t1 = max (global_depth t) (Suc (b_depth ?b))"
    using g1 dg by (auto simp: grow_def)
  show "b_depth (slot_bucket t1 (h key mod 2 ^ global_depth t1)) = Suc (b_depth ?b)"
    by (simp add: tg)
  show "crowd h t1 key D = crowd h t key D" if "Suc (b_depth ?b) \<le> D" for D
    unfolding crowd_def tg using filter_agree_filter [OF that, of h key "b_list ?b"] by simp
qed

lemma InsertInternal_depth:
  "ht_inv h t \<Longrightarrow> lookup h t key = None \<Longrightarrow>
   b_depth (slot_bucket t (h key mod 2 ^ global_depth t)) \<le> D \<Longrightarrow> D \<le> 30 \<Longrightarrow>
   crowd h t key D < bucket_size t \<Longrightarrow>
   (\<And>D'. b_depth (slot_bucket t (h key mod 2 ^ global_depth t)) \<le> D' \<Longrightarrow> D' < D \<Longrightarrow>
      bucket_size t \<le> crowd h t key D') \<Longrightarrow>
   \<exists>t'. InsertInternal h t key value = Some t' \<and>
      global_depth t' = max (global_depth t) D \<and>
      num_buckets t' = num_buckets t + (D - b_depth (slot_bucket t (h key mod 2 ^ global_depth t)))"
proof (induction h t key "value" rule: InsertInternal.induct)
  case (1 h t key "value")
  let ?idx = "h key mod 2 ^ global_depth t"
  let ?b = "slot_bucket t ?idx"
  note inv = "1.prems"(1)
  note I = ht_invD [OF inv]
  have i: "?idx < length (dir t)" using I(2) by simp
  have ok: "bucket_ok h (global_depth t) (bucket_size t) ?idx ?b" by (rule I(4) [OF i])
  then have dg: "b_depth ?b \<le> global_depth t" and sz: "b_size ?b = bucket_size t"
    by (simp_all add: bucket_ok_def)
  note unf = InsertInternal_unfold [OF inv, of key "value"]
  show ?case
  proof (cases "Bucket_Insert ?b key value")
    case (Some bucket')
    then have "Bucket_Insert ?b key value \<noteq> None" by simp
    moreover have "key \<notin> fst ` set (b_list ?b)"
      using "1.prems"(2) by (simp add: lookup_def list_find_None_iff)
    ultimately have "length (b_list ?b) < bucket_size t"
      using sz by (simp add: Bucket_Insert_None_iff)
    then have "crowd h t key (b_depth ?b) < bucket_size t"
      using crowd_target_depth [OF inv, of key] by simp
    then have "D = b_depth ?b"
      using "1.prems"(3) "1.prems"(6) [of "b_depth ?b"] by (cases "b_depth ?b < D") simp_all
    then show ?thesis using unf Some dg by (simp add: max_def)
  next
    case None
    then have full: "bucket_size t \<le> length (b_list ?b)"
      using sz by (simp add: Bucket_Insert_None_iff)
    then have "bucket_size t \<le> crowd h t key (b_depth ?b)"
      using crowd_target_depth [OF inv, of key] by simp
    then have dD: "b_depth ?b < D" using "1.prems"(3,5) by (cases "D = b_depth ?b") auto
    then have "b_depth ?b < 30" using "1.prems"(4) by simp
    from split_bucket_correct [OF inv refl refl this]
    obtain t1 where sp: "split_bucket h t ?idx ?b = Some t1" by blast
    note S = split_bucket_crowd [OF inv sp]
    have rec: "InsertInternal h t key value = InsertInternal h t1 key value"
      using unf None sp by simp
    have p2: "lookup h t1 key = None" using S(2) "1.prems"(2) by simp
    have p3: "b_depth (slot_bucket t1 (h key mod 2 ^ global_depth t1)) \<le> D"
      using S(7) dD by simp
    have p5: "crowd h t1 key D < bucket_size t1" using S(8) [of D] S(3) dD "1.prems"(5) by simp
    have p6: "bucket_size t1 \<le> crowd h t1 key D'"
      if "b_depth (slot_bucket t1 (h key mod 2 ^ global_depth t1)) \<le> D'" "D' < D" for D'
      using that S(8) [of D'] S(3,7) "1.prems"(6) [of D'] by simp
    from "1.IH" [OF IndexOf_inv [OF inv] dir_at_inv [OF inv] refl None sp S(1) p2 p3 "1.prems"(4) p5 p6]
    obtain t' where r: "InsertInternal h t1 key value = Some t'"
      and g: "global_depth t' = max (global_depth t1) D"
      and nb: "num_buckets t' = num_buckets t1 +
          (D - b_depth (slot_bucket t1 (h key mod 2 ^ global_depth t1)))"
      by blast
    have "global_depth t' = max (global_depth t) D" using g S(6) dD by simp
    moreover have "num_buckets t' = num_buckets t + (D - b_depth ?b)"
      using nb S(4,7) dD by simp
    ultimately show ?thesis using rec r by simp
  qed
qed

lemma InsertInternal_fails:
  "ht_inv h t \<Longrightarrow> lookup h t key = None \<Longrightarrow> bucket_size t \<le> crowd h t key 30 \<Longrightarrow>
   InsertInternal h t key value = None"
proof (induction h t key "value" rule: InsertInternal.induct)
  case (1 h t key "value")
  let ?idx = "h key mod 2 ^ global_depth t"
  let ?b = "slot_bucket t ?idx"
  note inv = "1.prems"(1)
  note unf = InsertInternal_unfold [OF inv, of key "value"]
  have full: "bucket_size t \<le> length (b_list ?b)"
    using "1.prems"(3) crowd_le [of h t key 30] by simp
  have sz: "b_size ?b = bucket_size t"
    using ht_invD(4) [OF inv, of ?idx] ht_invD(2) [OF inv] by (simp add: bucket_ok_def)
  have absent: "key \<notin> fst ` set (b_list ?b)"
    using "1.prems"(2) by (simp add: lookup_def list_find_None_iff)
  have None: "Bucket_Insert ?b key value = None"
    using full sz absent by (simp add: Bucket_Insert_None_iff)
  show ?case
  proof (cases "split_bucket h t ?idx ?b")
    case N: None
    then show ?thesis using unf None by simp
  next
    case (Some t1)
    note S = split_bucket_crowd [OF inv Some]
    have "Suc (b_depth ?b) \<le> 30" using split_bucket_depth [OF Some] by simp
    from S(8) [OF this] have c: "bucket_size t1 \<le> crowd h t1 key 30"
      using S(3) "1.prems"(3) by simp
    have p2: "lookup h t1 key = None" using S(2) "1.prems"(2) by simp
    from "1.IH" [OF IndexOf_inv [OF inv] dir_at_inv [OF inv] refl None Some S(1) p2 c]
    show ?thesis using unf None Some by simp
  qed
qed

lemma InsertInternal_succeeds:
  assumes inv: "ht_inv h t" and fit: "lookup h t key \<noteq> None \<or> crowd h t key 30 < bucket_size t"
  shows "\<exists>t'. InsertInternal h t key value = Some t'"
proof (cases "lookup h t key")
  case (Some v)
  then have "key \<in> fst ` set (b_list (slot_bucket t (h key mod 2 ^ global_depth t)))"
    using list_find_None_iff [of "b_list (slot_bucket t (h key mod 2 ^ global_depth t))" key]
    by (simp add: lookup_def)
  then have "Bucket_Insert (slot_bucket t (h key mod 2 ^ global_depth t)) key value \<noteq> None"
    by (simp add: Bucket_Insert_None_iff)
  then show ?thesis using InsertInternal_unfold [OF inv, of key "value"] by auto
next
  case None
  let ?d = "b_depth (slot_bucket t (h key mod 2 ^ global_depth t))"
  let ?P = "\<lambda>D. ?d \<le> D \<and> crowd h t key D < bucket_size t"
  have i: "h key mod 2 ^ global_depth t < length (dir t)" using ht_invD(2) [OF inv] by simp
  have "?d \<le> global_depth t" using ht_invD(4) [OF inv i] by (simp add: bucket_ok_def)
  then have P30: "?P 30" using ht_invD(1) [OF inv] fit None by simp
  define D where "D = (LEAST D. ?P D)"
  have PD: "?P D" unfolding D_def by (rule LeastI [of ?P, OF P30])
  have D30: "D \<le> 30" unfolding D_def by (rule Least_le [of ?P, OF P30])
  have least: "bucket_size t \<le> crowd h t key D'" if "?d \<le> D'" "D' < D" for D'
    using not_less_Least [of D' ?P] that by (auto simp: D_def)
  from InsertInternal_depth [OF inv None _ D30 _ least, of "value"] PD
  show ?thesis by blast
qed

lemma InsertInternal_buckets:
  "ht_inv h t \<Longrightarrow> InsertInternal h t key value = Some t' \<Longrightarrow>
     card (set (dir t')) + num_buckets t = card (set (dir t)) + num_buckets t'"
proof (induction h t key "value" rule: InsertInternal.induct)
  case (1 h t key "value")
  let ?idx = "h key mod 2 ^ global_depth t"
  let ?b = "slot_bucket t ?idx"
  note inv = "1.prems"(1)
  note unf = InsertInternal_unfold [OF inv, of key "value"]
  show ?case
  proof (cases "Bucket_Insert ?b key value")
    case (Some bucket')
    then show ?thesis using unf "1.prems"(2) by auto
  next
    case None
    show ?thesis
    proof (cases "split_bucket h t ?idx ?b")
      case N: None
      then show ?thesis using unf None "1.prems"(2) by simp
    next
      case (Some t1)
      note S = split_bucket_crowd [OF inv Some]
      have rec: "InsertInternal h t1 key value = Some t'" using unf None Some "1.prems"(2) by simp
      from "1.IH" [OF IndexOf_inv [OF inv] dir_at_inv [OF inv] refl None Some S(1) rec] S(4,5)
      show ?thesis by simp
    qed
  qed
qed

lemma ht_reachable_buckets: "ht_reachable h n t \<Longrightarrow> card (set (dir t)) = num_buckets t"
proof (induction rule: ht_reachable.induct)
  case ht_new
  show ?case by (simp add: ExtendibleHashTable_new_def)
next
  case (ht_Insert t key "value" t')
  from ht_reachable_inv [OF ht_Insert(1)] have "ht_inv h t" by simp
  from InsertInternal_buckets [OF this] ht_Insert(2,3) show ?case by (simp add: Insert_def)
next
  case (ht_Remove t key r t')
  from ht_reachable_inv [OF ht_Remove(1)] have "ht_inv h t" by simp
  from Remove_key_inv [OF this, of key] ht_Remove(2,3) show ?case by auto
qed

lemma three_keys_run:
  "Insert_all (\<lambda>k. k) (ExtendibleHashTable_new 2) [(0, 10), (2, 20), (4, 40)] = Some three_keys"
  by code_simp

lemma ht_reachable_Find:
  assumes "ht_reachable h n t"
  shows "Find h t key = Some (lookup h t key)"
  using ht_reachable_inv [OF assms] by (simp add: Find_inv)

subsection \<open>Round trip\<close>

text \<open>
  Claim C2. In every reachable table: after \<open>Insert h t key value\<close>, \<open>Find\<close> returns
  \<open>value\<close> for \<open>key\<close> and what it returned before for every other key (so the value
  stays until the key itself is removed or inserted again); if the key is stored already,
  \<open>Insert\<close> succeeds and leaves the global depth, the directory, the bucket count and the
  store's size as they were (no split); \<open>Remove\<close> returns true exactly when \<open>Find\<close> finds
  the key, afterwards \<open>Find\<close> does not find it, and the other keys are as before; on an
  absent key \<open>Remove\<close> returns false and changes nothing. In a fresh table \<open>Find\<close> finds
  no key.
\<close>

theorem hash_round_trip:
  assumes "ht_reachable h n t"
  shows "(\<forall>t'. Insert h t key value = Some t' \<longrightarrow>
            Find h t' key = Some (Some value) \<and> (\<forall>k. k \<noteq> key \<longrightarrow> Find h t' k = Find h t k))
    \<and> (\<forall>v. Find h t key = Some (Some v) \<longrightarrow>
          (\<exists>t'. Insert h t key value = Some t' \<and> global_depth t' = global_depth t \<and>
             dir t' = dir t \<and> num_buckets t' = num_buckets t \<and>
             length (heap t') = length (heap t)))
    \<and> (\<exists>t'. Remove_key h t key = Some (\<exists>v. Find h t key = Some (Some v), t') \<and>
          Find h t' key = Some None \<and> (\<forall>k. k \<noteq> key \<longrightarrow> Find h t' k = Find h t k))
    \<and> (Find h t key = Some None \<longrightarrow> Remove_key h t key = Some (False, t))
    \<and> Find h (ExtendibleHashTable_new n :: ('k, 'v) ExtendibleHashTable) key = Some None"
proof -
  from ht_reachable_inv [OF assms] have inv: "ht_inv h t" by simp
  have "lookup h (ExtendibleHashTable_new n :: ('k, 'v) ExtendibleHashTable) key = None"
    by (simp add: lookup_def ExtendibleHashTable_new_def Bucket_new_def slot_bucket_def)
  moreover have "Find h (ExtendibleHashTable_new n :: ('k, 'v) ExtendibleHashTable) key =
      Some (lookup h (ExtendibleHashTable_new n) key)"
    by (rule Find_inv [OF ht_inv_new])
  ultimately have fresh:
    "Find h (ExtendibleHashTable_new n :: ('k, 'v) ExtendibleHashTable) key = Some None"
    by simp
  have F: "Find h t k = Some (lookup h t k)" for k by (rule Find_inv [OF inv])
  have ins: "Find h t' key = Some (Some value) \<and> (\<forall>k. k \<noteq> key \<longrightarrow> Find h t' k = Find h t k)"
    if "Insert h t key value = Some t'" for t'
  proof -
    from InsertInternal_correct [OF inv] that
    have inv': "ht_inv h t'" and lk: "lookup h t' = (lookup h t)(key \<mapsto> value)"
      by (simp_all add: Insert_def)
    show ?thesis using lk by (simp add: Find_inv [OF inv'] F)
  qed
  have over: "\<exists>t'. Insert h t key value = Some t' \<and> global_depth t' = global_depth t \<and>
             dir t' = dir t \<and> num_buckets t' = num_buckets t \<and>
             length (heap t') = length (heap t)"
    if "Find h t key = Some (Some v)" for v
  proof -
    let ?b = "slot_bucket t (h key mod 2 ^ global_depth t)"
    from that F have "lookup h t key \<noteq> None" by simp
    then have "key \<in> fst ` set (b_list ?b)"
      using list_find_None_iff [of "b_list ?b" key] by (simp add: lookup_def)
    then have "Bucket_Insert ?b key value \<noteq> None" by (simp add: Bucket_Insert_None_iff)
    then show ?thesis using InsertInternal_unfold [OF inv, of key "value"]
      by (auto simp: Insert_def)
  qed
  from Remove_key_inv [OF inv, of key]
  obtain t' where rm: "Remove_key h t key = Some (lookup h t key \<noteq> None, t')"
    and inv': "ht_inv h t'" and lk: "lookup h t' = (lookup h t)(key := None)"
    and same: "lookup h t key = None \<longrightarrow> t' = t"
    by (elim exE conjE)
  have "(\<exists>v. Find h t key = Some (Some v)) = (lookup h t key \<noteq> None)" using F by auto
  with rm have rm': "Remove_key h t key = Some (\<exists>v. Find h t key = Some (Some v), t')" by simp
  have after: "Find h t' key = Some None \<and> (\<forall>k. k \<noteq> key \<longrightarrow> Find h t' k = Find h t k)"
    using lk by (simp add: Find_inv [OF inv'] F)
  have absent: "Find h t key = Some None \<longrightarrow> Remove_key h t key = Some (False, t)"
    using rm same F by auto
  from ins over rm' after absent fresh show ?thesis by blast
qed

subsection \<open>Directory invariants\<close>

text \<open>
  Claim C3. In every table reachable from one constructed with capacity \<open>n\<close>: the directory
  has \<open>2 ^ global_depth\<close> slots; every slot points to a live bucket whose depth is at most
  the global depth and which holds at most \<open>n\<close> entries; and two slots that agree on the
  low \<open>local depth\<close> bits of the first point to the same bucket.
\<close>

theorem directory_invariants:
  assumes "ht_reachable h n t"
  shows "length (dir t) = 2 ^ global_depth t
    \<and> (\<forall>i<length (dir t).
          dir t ! i < length (heap t) \<and>
          b_depth (slot_bucket t i) \<le> global_depth t \<and>
          length (b_list (slot_bucket t i)) \<le> n \<and>
          (\<forall>j<length (dir t).
             i mod 2 ^ b_depth (slot_bucket t i) = j mod 2 ^ b_depth (slot_bucket t i) \<longrightarrow>
             dir t ! i = dir t ! j))"
proof -
  from ht_reachable_inv [OF assms] have inv: "ht_inv h t" and n: "bucket_size t = n" by simp_all
  note I = ht_invD [OF inv]
  show ?thesis using I(2) I(3) I(4) I(5) n by (auto simp: bucket_ok_def)
qed

subsection \<open>When Insert completes\<close>

text \<open>
  Claim C7, as stated, fails for capacity 0: every bucket is full from the start, each
  retry doubles the directory, and after 31 doublings the mask \<open>(1 << 31) - 1\<close> is
  undefined. \<open>Insert\<close> never completes the insertion.
\<close>

theorem Insert_capacity_zero_counterexample:
  "ht_reachable (\<lambda>k. k) 0 (ExtendibleHashTable_new 0 :: (nat, nat) ExtendibleHashTable)
   \<and> Insert (\<lambda>k. k) (ExtendibleHashTable_new 0 :: (nat, nat) ExtendibleHashTable) 5 7 = None"
proof -
  let ?t = "ExtendibleHashTable_new 0 :: (nat, nat) ExtendibleHashTable"
  have "lookup (\<lambda>k. k) ?t 5 = None"
    by (simp add: lookup_def ExtendibleHashTable_new_def Bucket_new_def slot_bucket_def)
  moreover have "bucket_size ?t \<le> crowd (\<lambda>k. k) ?t 5 30"
    by (simp add: ExtendibleHashTable_new_def)
  ultimately have "InsertInternal (\<lambda>k. k) ?t 5 7 = None"
    using ht_inv_new by (rule InsertInternal_fails [rotated])
  then show ?thesis by (simp add: Insert_def ht_new)
qed

text \<open>
  Claim C7, amended. \<open>Insert\<close> is a total function: the split-and-retry recursion always
  ends. In a reachable table it completes the insertion exactly when the key is stored
  already or fewer than \<open>n\<close> (the capacity) entries of the key's bucket agree with the key
  on the low 30 bits of the hash; then the result is reachable and \<open>Find\<close> returns the value.
  Otherwise the retries end in the undefined mask computation and nothing is returned.
\<close>

theorem Insert_completes_iff_room:
  assumes "ht_reachable h n t"
  shows "((\<exists>t'. Insert h t key value = Some t') =
            ((\<exists>v. Find h t key = Some (Some v)) \<or> crowd h t key 30 < n))
    \<and> (\<forall>t'. Insert h t key value = Some t' \<longrightarrow>
          ht_reachable h n t' \<and> Find h t' key = Some (Some value))"
proof -
  from ht_reachable_inv [OF assms] have inv: "ht_inv h t" and n: "bucket_size t = n" by simp_all
  have F: "Find h t key = Some (lookup h t key)" by (rule Find_inv [OF inv])
  have p: "(\<exists>v. Find h t key = Some (Some v)) = (lookup h t key \<noteq> None)" using F by auto
  have "(\<exists>t'. Insert h t key value = Some t') = (lookup h t key \<noteq> None \<or> crowd h t key 30 < n)"
  proof (cases "lookup h t key \<noteq> None \<or> crowd h t key 30 < n")
    case True
    then show ?thesis using InsertInternal_succeeds [OF inv, of key "value"] n
      by (simp add: Insert_def)
  next
    case False
    then have "InsertInternal h t key value = None"
      using InsertInternal_fails [OF inv, of key "value"] n by simp
    with False show ?thesis by (simp add: Insert_def)
  qed
  moreover have "ht_reachable h n t' \<and> Find h t' key = Some (Some value)"
    if "Insert h t key value = Some t'" for t'
  proof -
    have r: "ht_reachable h n t'" by (rule ht_Insert [OF assms that])
    from InsertInternal_correct [OF inv] that
    have "lookup h t' key = Some value" by (simp add: Insert_def)
    with r show ?thesis by (simp add: ht_reachable_Find [OF r])
  qed
  ultimately show ?thesis using p by simp
qed

subsection \<open>Three colliding keys\<close>

text \<open>
  Claim C8, as stated, fails: with capacity 2 and the keys 0, 2, 4 (hash: the identity),
  which agree on bit 0 and differ on bit 1, the first split separates nothing, a second
  split follows, and the global depth is 2 with three buckets.
\<close>

theorem three_keys_counterexample:
  "map_option global_depth
     (Insert_all (\<lambda>k. k) (ExtendibleHashTable_new 2) [(0 :: nat, 10 :: nat), (2, 20), (4, 40)]) = Some 2
   \<and> map_option num_buckets
     (Insert_all (\<lambda>k. k) (ExtendibleHashTable_new 2) [(0 :: nat, 10 :: nat), (2, 20), (4, 40)]) = Some 3"
  using three_keys_run by (simp add: three_keys_def del: Insert_all.simps)

lemma two_inserts:
  assumes "k1 \<noteq> k2"
  shows "Insert_all h (ExtendibleHashTable_new 2) [(k1, v1), (k2, v2)] =
     Some \<lparr>global_depth = 0, bucket_size = 2, num_buckets = 1, dir = [0],
           heap = [\<lparr>b_size = 2, b_depth = 0, b_list = [(k1, v1), (k2, v2)]\<rparr>]\<rparr>"
  using assms
  by (simp add: Insert_def ExtendibleHashTable_new_def Bucket_new_def IndexOf_def low_mask_def
      dir_at_def Bucket_Insert_def IsFull_def)

lemma mod4_eq_iff:
  "((x :: nat) mod 4 = y mod 4) = (x mod 2 = y mod 2 \<and> x div 2 mod 2 = y div 2 mod 2)"
proof -
  have dec: "z mod 4 = 2 * (z div 2 mod 2) + z mod 2" for z :: nat
    using mod_mult2_eq [of z 2 2] by simp
  show ?thesis
  proof
    assume a: "x mod 4 = y mod 4"
    have "x mod 2 = (x mod 4) mod 2" using mod_mod_pow2 [of 1 2 x] by simp
    also have "\<dots> = (y mod 4) mod 2" by (simp only: a)
    also have "\<dots> = y mod 2" using mod_mod_pow2 [of 1 2 y] by simp
    finally have b: "x mod 2 = y mod 2" .
    from a b dec [of x] dec [of y] have "x div 2 mod 2 = y div 2 mod 2" by simp
    with b show "x mod 2 = y mod 2 \<and> x div 2 mod 2 = y div 2 mod 2" by simp
  next
    assume "x mod 2 = y mod 2 \<and> x div 2 mod 2 = y div 2 mod 2"
    then show "x mod 4 = y mod 4" using dec [of x] dec [of y] by simp
  qed
qed

text \<open>
  Claim C8, amended. With capacity 2 and three distinct keys whose hashes agree on bit 0
  and do not all agree on bit 1, the three inserts complete; afterwards the global depth
  is 2, three buckets exist (\<open>num_buckets\<close> is 3 and the directory points to three different
  buckets), and every entry of a bucket agrees with each slot pointing to it on the low
  \<open>local depth\<close> hash bits.
\<close>

theorem three_colliding_keys:
  assumes dist: "k1 \<noteq> k2" "k1 \<noteq> k3" "k2 \<noteq> k3"
    and bit0: "h k1 mod 2 = h k3 mod 2" "h k2 mod 2 = h k3 mod 2"
    and bit1: "\<not> (h k1 div 2 mod 2 = h k3 div 2 mod 2 \<and> h k2 div 2 mod 2 = h k3 div 2 mod 2)"
  shows "\<exists>t. Insert_all h (ExtendibleHashTable_new 2) [(k1, v1), (k2, v2), (k3, v3)] = Some t
    \<and> ht_reachable h 2 t
    \<and> global_depth t = 2 \<and> num_buckets t = 3 \<and> card (set (dir t)) = 3
    \<and> (\<forall>i<length (dir t). \<forall>x\<in>set (b_list (slot_bucket t i)).
          h (fst x) mod 2 ^ b_depth (slot_bucket t i) = i mod 2 ^ b_depth (slot_bucket t i))"
proof -
  let ?t0 = "ExtendibleHashTable_new 2 :: ('a, 'b) ExtendibleHashTable"
  define t2 :: "('a, 'b) ExtendibleHashTable" where
    "t2 = \<lparr>global_depth = 0, bucket_size = 2, num_buckets = 1, dir = [0],
           heap = [\<lparr>b_size = 2, b_depth = 0, b_list = [(k1, v1), (k2, v2)]\<rparr>]\<rparr>"
  have run2: "Insert_all h ?t0 [(k1, v1), (k2, v2)] = Some t2"
    unfolding t2_def by (rule two_inserts [OF dist(1)])
  then obtain t1 where i1: "Insert h ?t0 k1 v1 = Some t1" and i2: "Insert h t1 k2 v2 = Some t2"
    by (auto split: option.splits)
  have r2: "ht_reachable h 2 t2" by (rule ht_Insert [OF ht_Insert [OF ht_new i1] i2])
  from ht_reachable_inv [OF r2] have inv2: "ht_inv h t2" by simp
  have sb: "slot_bucket t2 (h k3 mod 2 ^ global_depth t2) =
      \<lparr>b_size = 2, b_depth = 0, b_list = [(k1, v1), (k2, v2)]\<rparr>"
    by (simp add: t2_def slot_bucket_def)
  have absent: "lookup h t2 k3 = None" using dist by (simp add: lookup_def sb)
  have bs: "bucket_size t2 = 2" by (simp add: t2_def)
  have cr: "crowd h t2 k3 D =
      length (filter (\<lambda>x. h (fst x) mod 2 ^ D = h k3 mod 2 ^ D) [(k1, v1), (k2, v2)])" for D
    unfolding crowd_def sb by simp
  have c2: "crowd h t2 k3 2 < bucket_size t2"
    unfolding cr bs using bit0 bit1 by (auto simp: mod4_eq_iff)
  have low: "bucket_size t2 \<le> crowd h t2 k3 D'" if "D' < 2" for D'
  proof -
    from that have "D' = 0 \<or> D' = 1" by auto
    then show ?thesis unfolding cr bs using bit0 by auto
  qed
  from InsertInternal_depth [OF inv2 absent _ _ c2 low, of v3]
  obtain t where i3: "InsertInternal h t2 k3 v3 = Some t"
    and g: "global_depth t = max (global_depth t2) 2"
    and nb: "num_buckets t = num_buckets t2 +
        (2 - b_depth (slot_bucket t2 (h k3 mod 2 ^ global_depth t2)))"
    by (auto simp: sb)
  have i3': "Insert h t2 k3 v3 = Some t" using i3 by (simp add: Insert_def)
  have r: "ht_reachable h 2 t" by (rule ht_Insert [OF r2 i3'])
  from ht_reachable_inv [OF r] have inv: "ht_inv h t" by simp
  have run: "Insert_all h ?t0 [(k1, v1), (k2, v2), (k3, v3)] = Some t"
    using i1 i2 i3' by simp
  have "global_depth t = 2" using g by (simp add: t2_def)
  moreover have n3: "num_buckets t = 3" using nb by (simp add: sb) (simp add: t2_def)
  moreover have "card (set (dir t)) = 3" using ht_reachable_buckets [OF r] n3 by simp
  moreover have "\<forall>i<length (dir t). \<forall>x\<in>set (b_list (slot_bucket t i)).
          h (fst x) mod 2 ^ b_depth (slot_bucket t i) = i mod 2 ^ b_depth (slot_bucket t i)"
    using ht_invD(4) [OF inv] by (simp add: bucket_ok_def)
  ultimately show ?thesis using run r by blast
qed

subsection \<open>Concrete tables\<close>

lemma Insert_all_reachable:
  "ht_reachable h n t \<Longrightarrow> Insert_all h t kvs = Some t' \<Longrightarrow> ht_reachable h n t'"
proof (induction kvs arbitrary: t)
  case Nil
  then show ?case by simp
next
  case (Cons kv kvs)
  from Cons.prems(2) obtain t1 where i: "Insert h t (fst kv) (snd kv) = Some t1"
    and r: "Insert_all h t1 kvs = Some t'"
    by (auto split: option.splits)
  from Cons.IH [OF ht_Insert [OF Cons.prems(1) i] r] show ?case .
qed

lemma reachable_three_keys: "ht_reachable (\<lambda>k. k) 2 three_keys"
  by (rule Insert_all_reachable [OF ht_new three_keys_run])

lemma three_keys_Find: "Find (\<lambda>k. k) three_keys 4 = Some (Some 40)"
  by code_simp

theorem hash_round_trip_witness:
  "ht_reachable (\<lambda>k. k) 2 three_keys
   \<and> (\<exists>t'. Remove_key (\<lambda>k. k) three_keys 4 = Some (True, t') \<and> Find (\<lambda>k. k) t' 4 = Some None)
   \<and> (\<exists>t'. Insert (\<lambda>k. k) three_keys 4 41 = Some t' \<and> dir t' = dir three_keys)"
  using hash_round_trip [OF reachable_three_keys, of 4 41] reachable_three_keys three_keys_Find
  by auto

theorem directory_invariants_witness:
  "ht_reachable (\<lambda>k. k) 2 three_keys
   \<and> length (dir three_keys) = 2 ^ global_depth three_keys
   \<and> dir three_keys ! 1 = dir three_keys ! 3
   \<and> length (b_list (slot_bucket three_keys 0)) \<le> 2"
proof -
  from directory_invariants [OF reachable_three_keys]
  have len: "length (dir three_keys) = 2 ^ global_depth three_keys"
    and cap: "\<And>i. i < length (dir three_keys) \<Longrightarrow>
          length (b_list (slot_bucket three_keys i)) \<le> 2"
    and same: "\<And>i j. i < length (dir three_keys) \<Longrightarrow> j < length (dir three_keys) \<Longrightarrow>
          i mod 2 ^ b_depth (slot_bucket three_keys i) = j mod 2 ^ b_depth (slot_bucket three_keys i) \<Longrightarrow>
          dir three_keys ! i = dir three_keys ! j"
    by blast+
  have l4: "length (dir three_keys) = 4" by (simp add: three_keys_def)
  have d1: "b_depth (slot_bucket three_keys (Suc 0)) = Suc 0" by (simp add: three_keys_def slot_bucket_def)
  have "dir three_keys ! 1 = dir three_keys ! 3"
    by (rule same) (simp_all add: l4 d1)
  moreover have "length (b_list (slot_bucket three_keys 0)) \<le> 2"
    by (rule cap) (simp add: l4)
  ultimately show ?thesis using len reachable_three_keys by simp
qed

lemma three_keys_crowd: "crowd (\<lambda>k. k) three_keys 6 30 = 0"
  by (simp add: crowd_def three_keys_def slot_bucket_def)

theorem Insert_completes_iff_room_witness:
  "ht_reachable (\<lambda>k. k) 2 three_keys \<and> crowd (\<lambda>k. k) three_keys 6 30 < 2
   \<and> (\<exists>t'. Insert (\<lambda>k. k) three_keys 6 60 = Some t' \<and> Find (\<lambda>k. k) t' 6 = Some (Some 60))"
  using Insert_completes_iff_room [OF reachable_three_keys, of 6 60] reachable_three_keys
    three_keys_crowd
  by auto

theorem three_colliding_keys_witness:
  "\<exists>t. Insert_all (\<lambda>k. k) (ExtendibleHashTable_new 2) [(0 :: nat, 10 :: nat), (2, 20), (4, 40)] = Some t
     \<and> global_depth t = 2 \<and> num_buckets t = 3 \<and> card (set (dir t)) = 3"
proof -
  from three_colliding_keys [of "0 :: nat" 2 4 "\<lambda>k. k" "10 :: nat" 20 40]
  obtain t where
    "Insert_all (\<lambda>k. k) (ExtendibleHashTable_new 2) [(0 :: nat, 10 :: nat), (2, 20), (4, 40)] = Some t"
    "global_depth t = 2" "num_buckets t = 3" "card (set (dir t)) = 3"
    by auto
  then show ?thesis by blast
qed

section \<open>Atomicity of the operations of both components\<close>




end
